theory Spec2Isabelle
  imports Main "HOL-Library.Word"
begin

section \<open>Machine types, status codes and constants\<close>

type_synonym byte = "8 word"
type_synonym size_t = "64 word"
type_synonym uint32_t = "32 word"

text \<open>
  \<open>zx_status_t\<close>: the codes that \<open>mbuf.cc\<close> names, and one constructor for every other
  code a collaborator (the user-memory copy) may hand back.
\<close>

datatype zx_status =
    ZX_OK
  | ZX_ERR_INVALID_ARGS
  | ZX_ERR_OUT_OF_RANGE
  | ZX_ERR_SHOULD_WAIT
  | ZX_ERR_OTHER int

text \<open>
  Modelled from the spec: \<open>PAGE_SIZE\<close> is used by \<open>mbuf.h\<close> but defined by the
  architecture headers, which are not among the sources. The spec only says that a cell
  fills exactly one page; the x86-64 page size of 4 KiB is taken.
\<close>

definition PAGE_SIZE :: size_t where
  "PAGE_SIZE = 4096"

definition kHeaderSize :: size_t where
  "kHeaderSize = (8 * 2) + (4 * 2) + 8"

definition kPayloadSize :: size_t where
  "kPayloadSize = PAGE_SIZE - kHeaderSize"

definition kSizeMax :: size_t where
  "kSizeMax = 128 * kPayloadSize"

definition NumBuffersForPayload :: "size_t \<Rightarrow> size_t" where
  "NumBuffersForPayload payload = 1 + ((payload - 1) div kPayloadSize)"

section \<open>Collaborators: user memory and the page allocator\<close>

text \<open>
  Modelled from the spec: the user-copy primitive (\<open>user_in_ptr\<close>, \<open>user_out_ptr\<close>) is
  not among the sources. A user pointer is the memory behind it (\<open>*_bytes\<close>, indexed by
  byte offset), the status that a copy of \<open>count\<close> bytes at \<open>offset\<close> reports
  (\<open>*_fault offset count\<close>), and, because the spec leaves the destination undefined after
  a failed call, how many bytes such a failed call has moved before it stopped
  (\<open>*_partial offset count\<close>).
\<close>

record user_in_ptr =
  in_bytes :: "nat \<Rightarrow> byte"
  in_fault :: "nat \<Rightarrow> nat \<Rightarrow> zx_status"
  in_partial :: "nat \<Rightarrow> nat \<Rightarrow> nat"

record user_out_ptr =
  out_bytes :: "nat \<Rightarrow> byte"
  out_fault :: "nat \<Rightarrow> nat \<Rightarrow> zx_status"
  out_partial :: "nat \<Rightarrow> nat \<Rightarrow> nat"

text \<open>\<open>blit dst doff n f\<close>: the array \<open>dst\<close> with \<open>f 0 .. f (n - 1)\<close> stored from index \<open>doff\<close>.\<close>

definition blit :: "(nat \<Rightarrow> byte) \<Rightarrow> nat \<Rightarrow> nat \<Rightarrow> (nat \<Rightarrow> byte) \<Rightarrow> (nat \<Rightarrow> byte)" where
  "blit dst doff n f = (\<lambda>i. if doff \<le> i \<and> i < doff + n then f (i - doff) else dst i)"

text \<open>
  \<open>src.byte_offset(off).copy_array_from_user(dst + doff, count)\<close>: the status and the
  kernel array afterwards.
\<close>

definition copy_array_from_user ::
  "user_in_ptr \<Rightarrow> nat \<Rightarrow> (nat \<Rightarrow> byte) \<Rightarrow> nat \<Rightarrow> nat \<Rightarrow> zx_status \<times> (nat \<Rightarrow> byte)" where
  "copy_array_from_user src off dst doff count =
     (let st = in_fault src off count;
          n = (if st = ZX_OK then count else min count (in_partial src off count))
      in (st, blit dst doff n (\<lambda>i. in_bytes src (off + i))))"

text \<open>
  \<open>dst.byte_offset(off).copy_array_to_user(src + soff, count)\<close>: the status and the user
  pointer (its memory) afterwards.
\<close>

definition copy_array_to_user ::
  "user_out_ptr \<Rightarrow> nat \<Rightarrow> (nat \<Rightarrow> byte) \<Rightarrow> nat \<Rightarrow> nat \<Rightarrow> zx_status \<times> user_out_ptr" where
  "copy_array_to_user dst off src soff count =
     (let st = out_fault dst off count;
          n = (if st = ZX_OK then count else min count (out_partial dst off count))
      in (st, dst\<lparr>out_bytes := blit (out_bytes dst) off n (\<lambda>i. src (soff + i))\<rparr>))"

text \<open>
  Modelled from the spec: the physical page allocator (\<open>Pmm::Node()\<close>) is not among the
  sources. It is the list of its free pages; \<open>AllocPages\<close> hands out exactly \<open>num\<close> pages,
  or none when fewer are free; \<open>FreeList\<close> takes pages back. A page is its address and the bytes lying in
  its payload region.
\<close>

record vm_page =
  paddr :: nat
  payload :: "nat \<Rightarrow> byte"

type_synonym pmm_node = "vm_page list"

definition AllocPages :: "size_t \<Rightarrow> pmm_node \<Rightarrow> (vm_page list) option \<times> pmm_node" where
  "AllocPages num pmm =
     (if unat num \<le> length pmm then (Some (take (unat num) pmm), drop (unat num) pmm)
      else (None, pmm))"

definition FreeList :: "vm_page list \<Rightarrow> pmm_node \<Rightarrow> pmm_node" where
  "FreeList pages pmm = pages @ pmm"

section \<open>The buffer cell and the chain\<close>

text \<open>
  A name may not end in an underscore here: the members \<open>len_\<close>, \<open>pkt_len_\<close>, \<open>page_\<close>, \<open>data_\<close>,
  \<open>buffers_\<close>, \<open>read_cursor_off_\<close> and \<open>size_\<close> carry the suffix \<open>m\<close>.
\<close>

record MBuf =
  len_m :: uint32_t
  pkt_len_m :: uint32_t
  page_m :: nat
  data_m :: "nat \<Rightarrow> byte"

record MBufChain =
  buffers_m :: "MBuf list"
  read_cursor_off_m :: uint32_t
  size_m :: size_t

text \<open>\<open>MBufChain() = default\<close>: the member initialisers.\<close>

definition MBufChain_new :: MBufChain where
  "MBufChain_new = \<lparr>buffers_m = [], read_cursor_off_m = 0, size_m = 0\<rparr>"

text \<open>
  \<open>MBuf::MBuf(page)\<close>: lengths zero, the data region left as the page holds it. The
  page state and the byte counter \<open>mbuf_total_bytes_count\<close> are not modelled.
\<close>

definition MBuf_new :: "vm_page \<Rightarrow> MBuf" where
  "MBuf_new page = \<lparr>len_m = 0, pkt_len_m = 0, page_m = paddr page, data_m = payload page\<rparr>"

definition rem :: "MBuf \<Rightarrow> size_t" where
  "rem buf = kPayloadSize - ucast (len_m buf)"

text \<open>\<open>front()\<close> of an intrusive list asserts that the list is not empty.\<close>

definition front :: "'a list \<Rightarrow> 'a option" where
  "front xs = (case xs of [] \<Rightarrow> None | x # _ \<Rightarrow> Some x)"

text \<open>\<open>AllocMBufs\<close>: each page taken from the head of \<open>pages\<close> is pushed to the front of \<open>ret\<close>.\<close>

definition AllocMBufs :: "size_t \<Rightarrow> pmm_node \<Rightarrow> (MBuf list) option \<times> pmm_node" where
  "AllocMBufs num pmm =
     (case AllocPages num pmm of
        (None, pmm') \<Rightarrow> (None, pmm')
      | (Some pages, pmm') \<Rightarrow> (Some (rev (map MBuf_new pages)), pmm'))"

text \<open>\<open>FreeMBufs\<close>: each buffer popped from the front has its page added at the head of \<open>pages\<close>.\<close>

definition FreeMBufs :: "MBuf list \<Rightarrow> pmm_node \<Rightarrow> pmm_node" where
  "FreeMBufs bufs pmm =
     FreeList (rev (map (\<lambda>buf. \<lparr>paddr = page_m buf, payload = data_m buf\<rparr>) bufs)) pmm"

section \<open>Accessors\<close>

definition is_full :: "MBufChain \<Rightarrow> bool" where
  "is_full c = (size_m c \<ge> kSizeMax)"

definition is_empty_chain :: "MBufChain \<Rightarrow> bool" where
  "is_empty_chain c = (size_m c = 0)"

text \<open>\<open>size(datagram)\<close>; \<open>None\<close> is the failed assertion of \<open>front()\<close> on an empty list.\<close>

definition size_of_chain :: "MBufChain \<Rightarrow> bool \<Rightarrow> size_t option" where
  "size_of_chain c datagram =
     (if datagram \<and> size_m c \<noteq> 0 then
        (case front (buffers_m c) of
           None \<Rightarrow> None
         | Some b \<Rightarrow> Some (ucast (pkt_len_m b)))
      else Some (size_m c))"

definition max_size :: size_t where
  "max_size = kSizeMax"

section \<open>WriteDatagram\<close>

text \<open>
  The loop \<open>for (auto& buf : bufs)\<close> of \<open>WriteDatagram\<close>: the status of the first failing
  copy (or \<open>ZX_OK\<close>) and the buffers as the loop leaves them.
\<close>

fun WriteDatagram_fill ::
  "user_in_ptr \<Rightarrow> size_t \<Rightarrow> size_t \<Rightarrow> MBuf list \<Rightarrow> zx_status \<times> MBuf list" where
  "WriteDatagram_fill src len pos [] = (ZX_OK, [])"
| "WriteDatagram_fill src len pos (buf # rest) =
     (let copy_len = min kPayloadSize (len - pos);
          (st, d) = copy_array_from_user src (unat pos) (data_m buf) 0 (unat copy_len)
      in if st \<noteq> ZX_OK then (st, buf\<lparr>data_m := d\<rparr> # rest)
         else
           (let buf' = buf\<lparr>data_m := d, len_m := len_m buf + ucast copy_len\<rparr>;
                (st', rest') = WriteDatagram_fill src len (pos + copy_len) rest
            in (st', buf' # rest')))"

text \<open>
  \<open>WriteDatagram(src, len, &written)\<close> on chain \<open>c\<close> with allocator \<open>pmm\<close>: the chain, the
  allocator, \<open>written\<close> and the status. \<open>None\<close> is the failed assertion of \<open>bufs.front()\<close>.
\<close>

definition WriteDatagram ::
  "user_in_ptr \<Rightarrow> size_t \<Rightarrow> MBufChain \<Rightarrow> pmm_node \<Rightarrow>
     (MBufChain \<times> pmm_node \<times> size_t \<times> zx_status) option" where
  "WriteDatagram src len c pmm =
     (if len = 0 then Some (c, pmm, 0, ZX_ERR_INVALID_ARGS)
      else if len > kSizeMax then Some (c, pmm, 0, ZX_ERR_OUT_OF_RANGE)
      else if len + size_m c > kSizeMax then Some (c, pmm, 0, ZX_ERR_SHOULD_WAIT)
      else
        (case AllocMBufs (NumBuffersForPayload len) pmm of
           (None, pmm') \<Rightarrow> Some (c, pmm', 0, ZX_ERR_SHOULD_WAIT)
         | (Some bufs, pmm') \<Rightarrow>
             (case WriteDatagram_fill src len 0 bufs of
                (st, bufs') \<Rightarrow>
                  if st \<noteq> ZX_OK then Some (c, FreeMBufs bufs' pmm', 0, ZX_ERR_INVALID_ARGS)
                  else
                    (case bufs' of
                       [] \<Rightarrow> None
                     | b # bs \<Rightarrow>
                         Some (c\<lparr>buffers_m := buffers_m c @ (b\<lparr>pkt_len_m := ucast len\<rparr> # bs),
                                 size_m := size_m c + len\<rparr>,
                               pmm', len, ZX_OK)))))"

section \<open>WriteStream\<close>

text \<open>
  The lambda \<open>write_buffer\<close> of \<open>WriteStream\<close>. It captures \<open>src\<close>, \<open>len\<close>, \<open>pos\<close> and
  \<open>size_\<close>; here it takes them and returns the status, the buffer, \<open>pos\<close> and \<open>size_\<close>.
  On failure it stores \<open>pos\<close> in \<open>*written\<close>: the callers below return that \<open>pos\<close>.
\<close>

definition write_buffer ::
  "user_in_ptr \<Rightarrow> size_t \<Rightarrow> size_t \<Rightarrow> size_t \<Rightarrow> MBuf \<Rightarrow> zx_status \<times> MBuf \<times> size_t \<times> size_t" where
  "write_buffer src len pos sz buf =
     (let copy_len = min (rem buf) (len - pos);
          (st, d) = copy_array_from_user src (unat pos) (data_m buf) (unat (len_m buf))
                      (unat copy_len)
      in if st \<noteq> ZX_OK then (st, buf\<lparr>data_m := d\<rparr>, pos, sz)
         else (ZX_OK, buf\<lparr>data_m := d, len_m := len_m buf + ucast copy_len\<rparr>,
               pos + copy_len, sz + copy_len))"

text \<open>
  The loop \<open>while (!bufs->is_empty())\<close>: status, \<open>pos\<close>, \<open>size_\<close>, the chain's buffers and
  what is left in \<open>bufs\<close>.
\<close>

fun WriteStream_loop ::
  "user_in_ptr \<Rightarrow> size_t \<Rightarrow> size_t \<Rightarrow> size_t \<Rightarrow> MBuf list \<Rightarrow> MBuf list \<Rightarrow>
     zx_status \<times> size_t \<times> size_t \<times> MBuf list \<times> MBuf list" where
  "WriteStream_loop src len pos sz buffers [] = (ZX_OK, pos, sz, buffers, [])"
| "WriteStream_loop src len pos sz buffers (b # rest) =
     (case write_buffer src len pos sz b of
        (st, b', pos', sz') \<Rightarrow>
          if st \<noteq> ZX_OK then (st, pos', sz', buffers, b' # rest)
          else WriteStream_loop src len pos' sz' (buffers @ [b']) rest)"

text \<open>The end of \<open>WriteStream\<close>: \<open>*written = pos\<close> and the status that goes with it.\<close>

definition WriteStream_finish :: "size_t \<Rightarrow> zx_status" where
  "WriteStream_finish pos = (if pos = 0 then ZX_ERR_SHOULD_WAIT else ZX_OK)"

text \<open>
  The first step of \<open>WriteStream\<close>, "if there's space available in the write buffer, go
  there first": the status, the chain's buffers, \<open>pos\<close> and \<open>size_\<close> after it.
\<close>

definition WriteStream_tail ::
  "user_in_ptr \<Rightarrow> size_t \<Rightarrow> MBufChain \<Rightarrow> zx_status \<times> MBuf list \<times> size_t \<times> size_t" where
  "WriteStream_tail src len c =
     (if buffers_m c \<noteq> [] \<and> rem (last (buffers_m c)) > 0 then
        (case write_buffer src len 0 (size_m c) (last (buffers_m c)) of
           (st, b', pos', sz') \<Rightarrow> (st, butlast (buffers_m c) @ [b'], pos', sz'))
      else (ZX_OK, buffers_m c, 0, size_m c))"

definition WriteStream ::
  "user_in_ptr \<Rightarrow> size_t \<Rightarrow> MBufChain \<Rightarrow> pmm_node \<Rightarrow>
     MBufChain \<times> pmm_node \<times> size_t \<times> zx_status" where
  "WriteStream src len0 c pmm =
     (let len = min (kSizeMax - size_m c) len0;
          (st1, buffers1, pos1, sz1) = WriteStream_tail src len c
      in if st1 \<noteq> ZX_OK then (c\<lparr>buffers_m := buffers1, size_m := sz1\<rparr>, pmm, pos1, st1)
         else if pos1 \<noteq> len then
           (case AllocMBufs (NumBuffersForPayload (len - pos1)) pmm of
              (None, pmm') \<Rightarrow>
                (c\<lparr>buffers_m := buffers1, size_m := sz1\<rparr>, pmm', pos1, WriteStream_finish pos1)
            | (Some bufs, pmm') \<Rightarrow>
                (case WriteStream_loop src len pos1 sz1 buffers1 bufs of
                   (st, pos2, sz2, buffers2, bufs2) \<Rightarrow>
                     if st \<noteq> ZX_OK then
                       (c\<lparr>buffers_m := buffers2, size_m := sz2\<rparr>, FreeMBufs bufs2 pmm', pos2, st)
                     else
                       (c\<lparr>buffers_m := buffers2, size_m := sz2\<rparr>, pmm', pos2,
                        WriteStream_finish pos2)))
         else (c\<lparr>buffers_m := buffers1, size_m := sz1\<rparr>, pmm, pos1, WriteStream_finish pos1))"

text \<open>
  The user copies that \<open>WriteStream\<close> performs, in order, each as the offset into \<open>src\<close>
  and the byte count it is called with. \<open>write_buffer\<close> makes one call, with \<open>pos\<close> and
  \<open>copy_len\<close>; the functions below follow \<open>WriteStream_loop\<close> and \<open>WriteStream\<close> branch by
  branch and collect the calls of the \<open>write_buffer\<close> invocations these make.
\<close>

definition write_buffer_call :: "size_t \<Rightarrow> size_t \<Rightarrow> MBuf \<Rightarrow> nat \<times> nat" where
  "write_buffer_call len pos buf = (unat pos, unat (min (rem buf) (len - pos)))"

fun WriteStream_loop_calls ::
  "user_in_ptr \<Rightarrow> size_t \<Rightarrow> size_t \<Rightarrow> size_t \<Rightarrow> MBuf list \<Rightarrow> MBuf list \<Rightarrow>
     (nat \<times> nat) list" where
  "WriteStream_loop_calls src len pos sz buffers [] = []"
| "WriteStream_loop_calls src len pos sz buffers (b # rest) =
     write_buffer_call len pos b #
     (case write_buffer src len pos sz b of
        (st, b', pos', sz') \<Rightarrow>
          if st \<noteq> ZX_OK then []
          else WriteStream_loop_calls src len pos' sz' (buffers @ [b']) rest)"

definition WriteStream_calls ::
  "user_in_ptr \<Rightarrow> size_t \<Rightarrow> MBufChain \<Rightarrow> pmm_node \<Rightarrow> (nat \<times> nat) list" where
  "WriteStream_calls src len0 c pmm =
     (let len = min (kSizeMax - size_m c) len0;
          tail_calls =
            (if buffers_m c \<noteq> [] \<and> rem (last (buffers_m c)) > 0
             then [write_buffer_call len 0 (last (buffers_m c))] else []);
          (st1, buffers1, pos1, sz1) = WriteStream_tail src len c
      in if st1 \<noteq> ZX_OK then tail_calls
         else if pos1 \<noteq> len then
           (case AllocMBufs (NumBuffersForPayload (len - pos1)) pmm of
              (None, pmm') \<Rightarrow> tail_calls
            | (Some bufs, pmm') \<Rightarrow>
                tail_calls @ WriteStream_loop_calls src len pos1 sz1 buffers1 bufs)
         else tail_calls)"

section \<open>Read and Peek\<close>

text \<open>
  The variables of \<open>ReadHelper\<close> that its loops change. \<open>rh_iter\<close> is the position of
  \<open>iter\<close> in \<open>chain->buffers_\<close>; \<open>rh_buffers\<close> and \<open>rh_size\<close> are \<open>chain->buffers_\<close> and
  \<open>chain->size_\<close>.
\<close>

record ReadHelper_state =
  rh_pos :: size_t
  rh_iter :: nat
  rh_read_off :: uint32_t
  rh_status :: zx_status
  rh_buffers :: "MBuf list"
  rh_size :: size_t
  rh_free_list :: "MBuf list"
  rh_dst :: user_out_ptr

definition ReadHelper_cond :: "size_t \<Rightarrow> ReadHelper_state \<Rightarrow> bool" where
  "ReadHelper_cond len s =
     (rh_pos s < len \<and> rh_iter s < length (rh_buffers s) \<and> rh_status s = ZX_OK)"

text \<open>
  One pass through the body of the \<open>while\<close> loop; \<open>is_const\<close> is
  \<open>ktl::is_const<T>::value\<close>. The body runs only where \<open>iter != end()\<close>.
\<close>

definition ReadHelper_body :: "bool \<Rightarrow> bool \<Rightarrow> size_t \<Rightarrow> ReadHelper_state \<Rightarrow> ReadHelper_state" where
  "ReadHelper_body is_const datagram len s =
     (let cur = rh_buffers s ! rh_iter s;
          copy_len = min (ucast (len_m cur - rh_read_off s)) (len - rh_pos s);
          (st, dst') = copy_array_to_user (rh_dst s) (unat (rh_pos s)) (data_m cur)
                         (unat (rh_read_off s)) (unat copy_len);
          copy_succeeded = (st = ZX_OK);
          s1 = s\<lparr>rh_status := st, rh_dst := dst',
                 rh_pos := (if copy_succeeded then rh_pos s + copy_len else rh_pos s)\<rparr>
      in if is_const then s1\<lparr>rh_read_off := 0, rh_iter := rh_iter s + 1\<rparr>
         else
           (let read_off1 = (if copy_succeeded then rh_read_off s + ucast copy_len
                             else rh_read_off s);
                size1 = (if copy_succeeded then rh_size s - copy_len else rh_size s)
            in if read_off1 = len_m cur \<or> datagram then
                 (let size2 = (if datagram then size1 - ucast (len_m cur - read_off1)
                               else size1)
                  in (case rh_buffers s of
                        [] \<Rightarrow> s1\<lparr>rh_read_off := 0, rh_size := size2, rh_iter := 0\<rparr>
                      | b # bs \<Rightarrow>
                          s1\<lparr>rh_read_off := 0, rh_size := size2, rh_iter := 0,
                             rh_free_list := b # rh_free_list s, rh_buffers := bs\<rparr>))
               else s1\<lparr>rh_read_off := read_off1, rh_size := size1\<rparr>))"

function ReadHelper_loop :: "bool \<Rightarrow> bool \<Rightarrow> size_t \<Rightarrow> ReadHelper_state \<Rightarrow> ReadHelper_state" where
  "ReadHelper_loop is_const datagram len s =
     (if ReadHelper_cond len s
      then ReadHelper_loop is_const datagram len (ReadHelper_body is_const datagram len s)
      else s)"
  by pat_completeness auto

text \<open>
  Every pass either ends the loop or moves on by one buffer: peeking advances \<open>iter\<close>,
  consuming unlinks the head unless the copy failed or \<open>pos\<close> reached \<open>len\<close>.
\<close>

termination ReadHelper_loop
proof (relation "measure (\<lambda>(is_const, datagram, len, s).
          if ReadHelper_cond len s
          then Suc (if is_const then length (rh_buffers s) - rh_iter s
                    else length (rh_buffers s))
          else 0)")
  show "wf (measure (\<lambda>(is_const, datagram, len, s).
          if ReadHelper_cond len s
          then Suc (if is_const then length (rh_buffers s) - rh_iter s
                    else length (rh_buffers s))
          else 0))"
    by simp
next
  fix is_const datagram :: bool and len :: size_t and s :: ReadHelper_state
  assume c: "ReadHelper_cond len s"
  let ?s' = "ReadHelper_body is_const datagram len s"
  obtain b bs where bs: "rh_buffers s = b # bs"
    using c by (cases "rh_buffers s") (auto simp: ReadHelper_cond_def)
  have cast_id: "(ucast (ucast x :: size_t) :: uint32_t) = x" for x :: uint32_t
    by (simp add: ucast_up_ucast_id is_up)
  have key: "pos + min (ucast (l - ro)) (len - pos) = len"
    if a: "ro + ucast (min (ucast (l - ro)) (len - pos)) \<noteq> l"
    for l ro :: uint32_t and pos :: size_t
  proof -
    have "min (ucast (l - ro)) (len - pos) \<noteq> (ucast (l - ro) :: size_t)"
      using a by (auto simp: cast_id)
    then have "min (ucast (l - ro)) (len - pos) = len - pos"
      by (simp add: min_def split: if_splits)
    then show ?thesis by simp
  qed
  have "ReadHelper_cond len ?s' \<Longrightarrow>
        (if is_const then length (rh_buffers ?s') - rh_iter ?s' else length (rh_buffers ?s'))
        < (if is_const then length (rh_buffers s) - rh_iter s else length (rh_buffers s))"
    using c key
    by (auto simp: ReadHelper_cond_def ReadHelper_body_def Let_def bs
             split: prod.splits if_splits)
  then show "((is_const, datagram, len, ?s'), (is_const, datagram, len, s))
      \<in> measure (\<lambda>(is_const, datagram, len, s).
          if ReadHelper_cond len s
          then Suc (if is_const then length (rh_buffers s) - rh_iter s
                    else length (rh_buffers s))
          else 0)"
    using c by (auto split: if_splits)
qed

declare ReadHelper_loop.simps [simp del]

text \<open>
  The second loop, taken when consuming a datagram: the head buffers whose \<open>pkt_len_\<close>
  is 0 are unlinked. It returns the buffers, \<open>read_off\<close>, \<open>size_\<close> and the free list.
\<close>

fun ReadHelper_drain ::
  "MBuf list \<Rightarrow> uint32_t \<Rightarrow> size_t \<Rightarrow> MBuf list \<Rightarrow>
     MBuf list \<times> uint32_t \<times> size_t \<times> MBuf list" where
  "ReadHelper_drain [] read_off sz free_list = ([], read_off, sz, free_list)"
| "ReadHelper_drain (cur # rest) read_off sz free_list =
     (if pkt_len_m cur = 0
      then ReadHelper_drain rest 0 (sz - ucast (len_m cur - read_off)) (cur # free_list)
      else (cur # rest, read_off, sz, free_list))"

text \<open>
  \<open>ReadHelper<T>(chain, dst, len, datagram, &actual)\<close>: the chain, the allocator, the
  user memory, \<open>actual\<close> and the status. \<open>None\<close> is the failed assertion of \<open>front()\<close> on
  an empty list. The deferred \<open>update_cursor\<close> assigns \<open>read_cursor_off_\<close> only when the
  chain is not const.
\<close>

definition ReadHelper ::
  "bool \<Rightarrow> MBufChain \<Rightarrow> pmm_node \<Rightarrow> user_out_ptr \<Rightarrow> size_t \<Rightarrow> bool \<Rightarrow>
     (MBufChain \<times> pmm_node \<times> user_out_ptr \<times> size_t \<times> zx_status) option" where
  "ReadHelper is_const c pmm dst len0 datagram =
     (if size_m c = 0 then Some (c, pmm, dst, 0, ZX_OK)
      else
        (case (if datagram then
                 (case front (buffers_m c) of
                    None \<Rightarrow> None
                  | Some b \<Rightarrow> Some (if len0 > ucast (pkt_len_m b) then ucast (pkt_len_m b)
                                     else len0))
               else Some len0) of
           None \<Rightarrow> None
         | Some len \<Rightarrow>
             (let s = ReadHelper_loop is_const datagram len
                        \<lparr>rh_pos = 0, rh_iter = 0, rh_read_off = read_cursor_off_m c,
                         rh_status = ZX_OK, rh_buffers = buffers_m c, rh_size = size_m c,
                         rh_free_list = [], rh_dst = dst\<rparr>;
                  (buffers', read_off', size', free_list') =
                    (if \<not> is_const \<and> datagram
                     then ReadHelper_drain (rh_buffers s) (rh_read_off s) (rh_size s)
                            (rh_free_list s)
                     else (rh_buffers s, rh_read_off s, rh_size s, rh_free_list s));
                  pmm' = (if \<not> is_const \<and> free_list' \<noteq> [] then FreeMBufs free_list' pmm
                          else pmm)
              in Some (\<lparr>buffers_m = buffers',
                         read_cursor_off_m =
                           (if is_const then read_cursor_off_m c else read_off'),
                         size_m = size'\<rparr>,
                       pmm', rh_dst s, rh_pos s, rh_status s))))"

definition Read ::
  "MBufChain \<Rightarrow> pmm_node \<Rightarrow> user_out_ptr \<Rightarrow> size_t \<Rightarrow> bool \<Rightarrow>
     (MBufChain \<times> pmm_node \<times> user_out_ptr \<times> size_t \<times> zx_status) option" where
  "Read c pmm dst len datagram = ReadHelper False c pmm dst len datagram"

definition Peek ::
  "MBufChain \<Rightarrow> pmm_node \<Rightarrow> user_out_ptr \<Rightarrow> size_t \<Rightarrow> bool \<Rightarrow>
     (MBufChain \<times> pmm_node \<times> user_out_ptr \<times> size_t \<times> zx_status) option" where
  "Peek c pmm dst len datagram = ReadHelper True c pmm dst len datagram"

section \<open>Sequences of public operations\<close>

datatype operation =
    OpWriteStream user_in_ptr size_t
  | OpWriteDatagram user_in_ptr size_t
  | OpRead user_out_ptr size_t bool
  | OpPeek user_out_ptr size_t bool

text \<open>One operation on the chain and the allocator; \<open>None\<close> is a failed assertion.\<close>

fun apply_operation :: "operation \<Rightarrow> MBufChain \<times> pmm_node \<Rightarrow> (MBufChain \<times> pmm_node) option" where
  "apply_operation (OpWriteStream src len) (c, pmm) =
     (case WriteStream src len c pmm of (c', pmm', _, _) \<Rightarrow> Some (c', pmm'))"
| "apply_operation (OpWriteDatagram src len) (c, pmm) =
     (case WriteDatagram src len c pmm of
        None \<Rightarrow> None
      | Some (c', pmm', _, _) \<Rightarrow> Some (c', pmm'))"
| "apply_operation (OpRead dst len datagram) (c, pmm) =
     (case Read c pmm dst len datagram of
        None \<Rightarrow> None
      | Some (c', pmm', _, _, _) \<Rightarrow> Some (c', pmm'))"
| "apply_operation (OpPeek dst len datagram) (c, pmm) =
     (case Peek c pmm dst len datagram of
        None \<Rightarrow> None
      | Some (c', pmm', _, _, _) \<Rightarrow> Some (c', pmm'))"

fun run :: "operation list \<Rightarrow> MBufChain \<times> pmm_node \<Rightarrow> (MBufChain \<times> pmm_node) option" where
  "run [] w = Some w"
| "run (op # ops) w =
     (case apply_operation op w of
        None \<Rightarrow> None
      | Some w' \<Rightarrow> run ops w')"

section \<open>Invariants and abstractions of the chain\<close>

text \<open>
  The data-model invariants that every operation keeps (shown below): every linked cell
  holds between 1 and \<open>kPayloadSize\<close> valid bytes, the read cursor lies inside the head
  cell (and is 0 on an empty chain), \<open>size_\<close> is the sum of the valid lengths minus the
  read cursor, and \<open>size_\<close> is at most \<open>kSizeMax\<close>.
\<close>

definition total_len :: "MBuf list \<Rightarrow> nat" where
  "total_len bufs = sum_list (map (\<lambda>b. unat (len_m b)) bufs)"

definition chain_inv :: "MBufChain \<Rightarrow> bool" where
  "chain_inv c =
     ((\<forall>b \<in> set (buffers_m c). 0 < unat (len_m b) \<and> unat (len_m b) \<le> unat kPayloadSize) \<and>
      (case buffers_m c of
         [] \<Rightarrow> read_cursor_off_m c = 0
       | b # _ \<Rightarrow> unat (read_cursor_off_m c) < unat (len_m b)) \<and>
      unat (size_m c) + unat (read_cursor_off_m c) = total_len (buffers_m c) \<and>
      unat (size_m c) \<le> unat kSizeMax)"

text \<open>The valid bytes of a cell, and the unread bytes of a chain in order.\<close>

definition valid_bytes :: "MBuf \<Rightarrow> byte list" where
  "valid_bytes b = map (data_m b) [0..<unat (len_m b)]"

definition chain_bytes :: "MBufChain \<Rightarrow> byte list" where
  "chain_bytes c =
     drop (unat (read_cursor_off_m c)) (concat (map valid_bytes (buffers_m c)))"

text \<open>
  Datagram framing: a cell with \<open>pkt_len_ = 0\<close> continues the datagram of the cell before
  it. \<open>datagrams\<close> cuts the cells into datagrams and gives the bytes of each;
  \<open>datagram_cells\<close> says that every datagram starts with a cell whose \<open>pkt_len_\<close> is not 0
  and equals the valid bytes of its cells.
\<close>

definition is_body :: "MBuf \<Rightarrow> bool" where
  "is_body b = (pkt_len_m b = 0)"

function datagrams :: "MBuf list \<Rightarrow> byte list list" where
  "datagrams [] = []"
| "datagrams (b # bs) =
     concat (map valid_bytes (b # takeWhile is_body bs)) # datagrams (dropWhile is_body bs)"
  by pat_completeness auto
termination
  by (relation "measure length") (auto simp: length_dropWhile_le less_Suc_eq_le)

function datagram_cells :: "MBuf list \<Rightarrow> bool" where
  "datagram_cells [] = True"
| "datagram_cells (b # bs) =
     (pkt_len_m b \<noteq> 0 \<and>
      unat (pkt_len_m b) = total_len (b # takeWhile is_body bs) \<and>
      datagram_cells (dropWhile is_body bs))"
  by pat_completeness auto
termination
  by (relation "measure length") (auto simp: length_dropWhile_le less_Suc_eq_le)

text \<open>The bytes that a user pointer holds at offsets \<open>0 .. n - 1\<close>.\<close>

definition in_prefix :: "user_in_ptr \<Rightarrow> nat \<Rightarrow> byte list" where
  "in_prefix src n = map (in_bytes src) [0..<n]"

definition out_prefix :: "user_out_ptr \<Rightarrow> nat \<Rightarrow> byte list" where
  "out_prefix dst n = map (out_bytes dst) [0..<n]"

text \<open>The chain as the loops of \<open>ReadHelper\<close> see it in their state.\<close>

definition rh_chain :: "ReadHelper_state \<Rightarrow> MBufChain" where
  "rh_chain s =
     \<lparr>buffers_m = rh_buffers s, read_cursor_off_m = rh_read_off s, size_m = rh_size s\<rparr>"

text \<open>
  One pass of the loop of \<open>ReadHelper\<close>, in parts: the length it copies, the status of
  the copy, the number of bytes that reach user memory, and the bytes it copies from.
\<close>

definition rh_copy_len :: "size_t \<Rightarrow> ReadHelper_state \<Rightarrow> size_t" where
  "rh_copy_len len s =
     min (ucast (len_m (rh_buffers s ! rh_iter s) - rh_read_off s)) (len - rh_pos s)"

definition rh_copy_status :: "size_t \<Rightarrow> ReadHelper_state \<Rightarrow> zx_status" where
  "rh_copy_status len s = out_fault (rh_dst s) (unat (rh_pos s)) (unat (rh_copy_len len s))"

definition rh_moved :: "size_t \<Rightarrow> ReadHelper_state \<Rightarrow> nat" where
  "rh_moved len s =
     (if rh_copy_status len s = ZX_OK then unat (rh_copy_len len s)
      else min (unat (rh_copy_len len s))
             (out_partial (rh_dst s) (unat (rh_pos s)) (unat (rh_copy_len len s))))"

definition rh_src :: "ReadHelper_state \<Rightarrow> nat \<Rightarrow> byte" where
  "rh_src s = (\<lambda>i. data_m (rh_buffers s ! rh_iter s) (unat (rh_read_off s) + i))"

section \<open>Concrete inputs\<close>

definition ex_page :: "nat \<Rightarrow> vm_page" where
  "ex_page n = \<lparr>paddr = n, payload = (\<lambda>i. 0)\<rparr>"

text \<open>User memory filled with one byte, readable everywhere.\<close>

definition ex_src :: "byte \<Rightarrow> user_in_ptr" where
  "ex_src x = \<lparr>in_bytes = (\<lambda>i. x), in_fault = (\<lambda>off n. ZX_OK), in_partial = (\<lambda>off n. 0)\<rparr>"

text \<open>User memory that faults when a copy starts at offset \<open>k\<close> or beyond.\<close>

definition ex_src_fault :: "byte \<Rightarrow> nat \<Rightarrow> user_in_ptr" where
  "ex_src_fault x k =
     \<lparr>in_bytes = (\<lambda>i. x),
      in_fault = (\<lambda>off n. if off < k then ZX_OK else ZX_ERR_INVALID_ARGS),
      in_partial = (\<lambda>off n. 0)\<rparr>"

definition ex_dst :: user_out_ptr where
  "ex_dst = \<lparr>out_bytes = (\<lambda>i. 0), out_fault = (\<lambda>off n. ZX_OK), out_partial = (\<lambda>off n. 0)\<rparr>"

definition ex_dst_fault :: "nat \<Rightarrow> user_out_ptr" where
  "ex_dst_fault k =
     \<lparr>out_bytes = (\<lambda>i. 0),
      out_fault = (\<lambda>off n. if off < k then ZX_OK else ZX_ERR_INVALID_ARGS),
      out_partial = (\<lambda>off n. 0)\<rparr>"

text \<open>A cell as a write leaves it: \<open>n\<close> valid bytes \<open>x\<close>, frame length \<open>k\<close>.\<close>

definition ex_buf :: "uint32_t \<Rightarrow> uint32_t \<Rightarrow> byte \<Rightarrow> MBuf" where
  "ex_buf n k x = \<lparr>len_m = n, pkt_len_m = k, page_m = 0, data_m = (\<lambda>i. x)\<rparr>"

text \<open>Two datagrams of 3 and 5 bytes; a stream of 5 bytes of which 2 are read.\<close>

definition ex_dgram_chain :: MBufChain where
  "ex_dgram_chain =
     \<lparr>buffers_m = [ex_buf 3 3 65, ex_buf 5 5 66], read_cursor_off_m = 0, size_m = 8\<rparr>"

definition ex_stream_chain :: MBufChain where
  "ex_stream_chain = \<lparr>buffers_m = [ex_buf 5 0 66], read_cursor_off_m = 2, size_m = 3\<rparr>"

text \<open>A run with a rejected datagram, a faulting stream write and a faulting read.\<close>

definition ex_ops :: "operation list" where
  "ex_ops =
     [OpWriteDatagram (ex_src 65) 3,
      OpWriteDatagram (ex_src 65) 0,
      OpWriteStream (ex_src_fault 66 0) 5,
      OpRead (ex_dst_fault 0) 2 True,
      OpWriteStream (ex_src 66) 5]"

lemmas model_defs =
  WriteDatagram_def AllocMBufs_def AllocPages_def NumBuffersForPayload_def
  kPayloadSize_def kSizeMax_def PAGE_SIZE_def kHeaderSize_def
  copy_array_from_user_def copy_array_to_user_def MBuf_new_def FreeMBufs_def FreeList_def
  Read_def Peek_def ReadHelper_def ReadHelper_cond_def ReadHelper_body_def
  ReadHelper_loop.simps front_def WriteStream_def WriteStream_tail_def write_buffer_def
  rem_def WriteStream_calls_def write_buffer_call_def
  WriteStream_finish_def Let_def MBufChain_new_def

lemmas ex_defs =
  ex_page_def ex_src_def ex_src_fault_def ex_dst_def ex_dst_fault_def ex_buf_def
  ex_dgram_chain_def ex_stream_chain_def

section \<open>Constants\<close>

lemma kPayloadSize_val: "kPayloadSize = 4064"
  by (simp add: kPayloadSize_def PAGE_SIZE_def kHeaderSize_def)

lemma kSizeMax_val: "kSizeMax = 520192"
  by (simp add: kSizeMax_def kPayloadSize_val)

lemma unat_NumBuffersForPayload:
  "unat (NumBuffersForPayload p) = 1 + unat (p - 1) div 4064"
proof -
  have b: "unat (p - 1) < 2 ^ 64" using unsigned_less [of "p - 1"] by simp
  have "unat ((p - 1) div 4064) = unat (p - 1) div 4064"
    by (simp add: unat_div)
  moreover have "unat (p - 1) div 4064 + 1 < 2 ^ 64" using b by simp
  ultimately show ?thesis
    by (simp add: NumBuffersForPayload_def kPayloadSize_val unat_word_ariths)
qed

section \<open>Allocation\<close>

lemma AllocMBufs_Some:
  "AllocMBufs num pmm = (Some bufs, pmm') \<Longrightarrow>
     length bufs = unat num \<and> unat num \<le> length pmm \<and> pmm' = drop (unat num) pmm
     \<and> bufs = rev (map MBuf_new (take (unat num) pmm))"
  by (auto simp: AllocMBufs_def AllocPages_def split: if_splits)

lemma AllocMBufs_None:
  "AllocMBufs num pmm = (None, pmm') \<Longrightarrow> pmm' = pmm \<and> length pmm < unat num"
  by (auto simp: AllocMBufs_def AllocPages_def split: if_splits)

section \<open>WriteDatagram: admission and atomicity\<close>

lemma WriteDatagram_fill_length:
  "WriteDatagram_fill src len pos bufs = (st, bufs') \<Longrightarrow> length bufs' = length bufs"
  by (induction bufs arbitrary: pos st bufs')
     (auto simp: Let_def split: prod.splits if_splits)

lemma WriteDatagram_returns:
  "\<exists>c' pmm' written st.
     WriteDatagram src len c pmm = Some (c', pmm', written, st) \<and>
     (st \<noteq> ZX_OK \<longrightarrow> c' = c \<and> written = 0)"
proof (cases "len = 0 \<or> len > kSizeMax \<or> len + size_m c > kSizeMax")
  case True
  then show ?thesis by (auto simp: WriteDatagram_def)
next
  case False
  obtain r pmm' where a: "AllocMBufs (NumBuffersForPayload len) pmm = (r, pmm')"
    by (cases "AllocMBufs (NumBuffersForPayload len) pmm") auto
  show ?thesis
  proof (cases r)
    case None
    with a False show ?thesis by (auto simp: WriteDatagram_def)
  next
    case (Some bufs)
    obtain st bufs' where f: "WriteDatagram_fill src len 0 bufs = (st, bufs')"
      by (cases "WriteDatagram_fill src len 0 bufs") auto
    have "length bufs' = length bufs"
      using WriteDatagram_fill_length [OF f] .
    moreover have "length bufs = unat (NumBuffersForPayload len)"
      using a Some AllocMBufs_Some by blast
    ultimately have "bufs' \<noteq> []"
      by (auto simp: unat_NumBuffersForPayload)
    then obtain b bs where "bufs' = b # bs" by (cases bufs') auto
    with a Some f False show ?thesis by (auto simp: WriteDatagram_def)
  qed
qed

text \<open>
  C1. \<open>WriteDatagram\<close> always returns, and whenever its status is not \<open>ZX_OK\<close> the chain
  it leaves is the chain it was given (buffers with their contents, read cursor and
  \<open>size_\<close>) and \<open>written\<close> is 0.
\<close>

theorem WriteDatagram_atomic:
  "\<exists>c' pmm' written st.
     WriteDatagram src len c pmm = Some (c', pmm', written, st) \<and>
     (st \<noteq> ZX_OK \<longrightarrow> c' = c \<and> written = 0)"
  by (rule WriteDatagram_returns)

text \<open>
  Witness: a datagram of \<open>kPayloadSize + 1\<close> bytes whose second copy faults is rolled
  back; the chain of one stream cell is returned as it was.
\<close>

theorem WriteDatagram_atomic_witness:
  "\<exists>pmm'. WriteDatagram (ex_src_fault 65 4064) 4065
            \<lparr>buffers_m = [ex_buf 5 0 66], read_cursor_off_m = 0, size_m = 5\<rparr>
            [ex_page 1, ex_page 2]
          = Some (\<lparr>buffers_m = [ex_buf 5 0 66], read_cursor_off_m = 0, size_m = 5\<rparr>,
                  pmm', 0, ZX_ERR_INVALID_ARGS)"
  using WriteDatagram_atomic [of "ex_src_fault 65 4064" 4065
      "\<lparr>buffers_m = [ex_buf 5 0 66], read_cursor_off_m = 0, size_m = 5\<rparr>"
      "[ex_page 1, ex_page 2]"]
  by (simp add: model_defs ex_defs)

lemma WriteDatagram_checks:
  "(len = 0 \<longrightarrow> WriteDatagram src len c pmm = Some (c, pmm, 0, ZX_ERR_INVALID_ARGS)) \<and>
   (len \<noteq> 0 \<and> unat len > unat kSizeMax \<longrightarrow>
      WriteDatagram src len c pmm = Some (c, pmm, 0, ZX_ERR_OUT_OF_RANGE)) \<and>
   (len \<noteq> 0 \<and> unat len \<le> unat kSizeMax \<and> unat (size_m c) \<le> unat kSizeMax \<and>
    unat len + unat (size_m c) > unat kSizeMax \<longrightarrow>
      WriteDatagram src len c pmm = Some (c, pmm, 0, ZX_ERR_SHOULD_WAIT))"
proof -
  have "len + size_m c > kSizeMax"
    if "unat len \<le> unat kSizeMax" "unat (size_m c) \<le> unat kSizeMax"
       "unat len + unat (size_m c) > unat kSizeMax"
  proof -
    have "unat (size_m c) \<le> 520192" using that(2) by (simp add: kSizeMax_val)
    moreover have "unat len \<le> 520192" using that(1) by (simp add: kSizeMax_val)
    ultimately have "unat (len + size_m c) = unat len + unat (size_m c)"
      by (simp add: unat_word_ariths)
    then show ?thesis using that(3) by (simp add: word_less_nat_alt)
  qed
  then show ?thesis
    by (auto simp: WriteDatagram_def word_less_nat_alt word_le_nat_alt)
qed

text \<open>
  C8. The checks of \<open>WriteDatagram\<close> before it allocates, in their order: a length of 0
  gives \<open>(0, ZX_ERR_INVALID_ARGS)\<close>; otherwise a length above \<open>kSizeMax\<close> gives
  \<open>(0, ZX_ERR_OUT_OF_RANGE)\<close>; otherwise, on a chain whose \<open>size_\<close> is within \<open>kSizeMax\<close>,
  \<open>len + size_ > kSizeMax\<close> gives \<open>(0, ZX_ERR_SHOULD_WAIT)\<close>. Each time the chain and
  the allocator are returned as they were.
\<close>

theorem WriteDatagram_pre_admission:
  "(len = 0 \<longrightarrow> WriteDatagram src len c pmm = Some (c, pmm, 0, ZX_ERR_INVALID_ARGS)) \<and>
   (len \<noteq> 0 \<and> unat len > unat kSizeMax \<longrightarrow>
      WriteDatagram src len c pmm = Some (c, pmm, 0, ZX_ERR_OUT_OF_RANGE)) \<and>
   (len \<noteq> 0 \<and> unat len \<le> unat kSizeMax \<and> unat (size_m c) \<le> unat kSizeMax \<and>
    unat len + unat (size_m c) > unat kSizeMax \<longrightarrow>
      WriteDatagram src len c pmm = Some (c, pmm, 0, ZX_ERR_SHOULD_WAIT))"
  by (rule WriteDatagram_checks)

theorem WriteDatagram_pre_admission_witness:
  "WriteDatagram (ex_src 65) 0 MBufChain_new [ex_page 1]
     = Some (MBufChain_new, [ex_page 1], 0, ZX_ERR_INVALID_ARGS) \<and>
   unat (520193 :: size_t) > unat kSizeMax \<and>
   WriteDatagram (ex_src 65) 520193 MBufChain_new [ex_page 1]
     = Some (MBufChain_new, [ex_page 1], 0, ZX_ERR_OUT_OF_RANGE) \<and>
   unat (520190 :: size_t) \<le> unat kSizeMax \<and> unat (5 :: size_t) \<le> unat kSizeMax \<and>
   unat (520190 :: size_t) + unat (5 :: size_t) > unat kSizeMax \<and>
   WriteDatagram (ex_src 65) 520190
       \<lparr>buffers_m = [ex_buf 5 5 66], read_cursor_off_m = 0, size_m = 5\<rparr> [ex_page 1]
     = Some (\<lparr>buffers_m = [ex_buf 5 5 66], read_cursor_off_m = 0, size_m = 5\<rparr>,
             [ex_page 1], 0, ZX_ERR_SHOULD_WAIT)"
  using WriteDatagram_pre_admission [of 0 "ex_src 65" MBufChain_new "[ex_page 1]"]
    WriteDatagram_pre_admission [of 520193 "ex_src 65" MBufChain_new "[ex_page 1]"]
    WriteDatagram_pre_admission [of 520190 "ex_src 65"
      "\<lparr>buffers_m = [ex_buf 5 5 66], read_cursor_off_m = 0, size_m = 5\<rparr>" "[ex_page 1]"]
  by (simp add: kSizeMax_val)

section \<open>Word arithmetic and the invariant\<close>

lemma unat_min: "unat (min a b) = min (unat a) (unat b)" for a b :: "'a::len word"
  by (simp add: min_def word_le_nat_alt)

lemma unat_up: "unat (ucast (x :: uint32_t) :: size_t) = unat x"
proof -
  have "unat x < 2 ^ 32" using unsigned_less [of x] by simp
  then have "unat x < 2 ^ 64" by simp
  then show ?thesis by (simp add: unsigned_ucast_eq take_bit_nat_eq_self)
qed

lemma unat_down: "unat y < 2 ^ 32 \<Longrightarrow> unat (ucast (y :: size_t) :: uint32_t) = unat y"
  by (simp add: unsigned_ucast_eq take_bit_nat_eq_self)

lemma total_len_Cons [simp]: "total_len (b # bs) = unat (len_m b) + total_len bs"
  by (simp add: total_len_def)

lemma total_len_Nil [simp]: "total_len [] = 0"
  by (simp add: total_len_def)

lemma total_len_append [simp]: "total_len (xs @ ys) = total_len xs + total_len ys"
  by (simp add: total_len_def)

lemma chain_inv_pop:
  assumes "chain_inv \<lparr>buffers_m = b # bs, read_cursor_off_m = ro, size_m = sz\<rparr>"
    and "unat sz' = unat sz - (unat (len_m b) - unat ro)"
  shows "chain_inv \<lparr>buffers_m = bs, read_cursor_off_m = 0, size_m = sz'\<rparr>"
  using assms by (cases bs) (auto simp: chain_inv_def)

lemma chain_inv_empty_iff: "chain_inv c \<Longrightarrow> (size_m c = 0) = (buffers_m c = [])"
proof (cases "buffers_m c")
  case Nil
  assume "chain_inv c"
  with Nil have "unat (size_m c) = 0" by (simp add: chain_inv_def)
  then show ?thesis using Nil by (simp add: unat_eq_0)
next
  case (Cons b bs)
  assume "chain_inv c"
  with Cons have "unat (size_m c) > 0" by (simp add: chain_inv_def)
  then show ?thesis using Cons by (auto simp: unat_gt_0)
qed

lemma chain_inv_ex_dgram: "chain_inv ex_dgram_chain"
  by (simp add: chain_inv_def ex_dgram_chain_def ex_buf_def kPayloadSize_val kSizeMax_val)

lemma chain_inv_ex_stream: "chain_inv ex_stream_chain"
  by (simp add: chain_inv_def ex_stream_chain_def ex_buf_def kPayloadSize_val kSizeMax_val)

section \<open>The size accessor\<close>

text \<open>
  C9. On a chain that satisfies the invariants, \<open>size(true)\<close> is the \<open>pkt_len_\<close> of the
  head cell when there is one and 0 on an empty chain; it is 0 when every cell has
  \<open>pkt_len_ = 0\<close> (stream mode); and \<open>size(false)\<close> is \<open>size_\<close>, which is the number of unread
  bytes: the valid lengths of all cells minus the read cursor.
\<close>

theorem size_of_chain_spec:
  assumes "chain_inv c"
  shows "size_of_chain c True =
           Some (case buffers_m c of [] \<Rightarrow> 0 | b # _ \<Rightarrow> ucast (pkt_len_m b)) \<and>
         ((\<forall>b \<in> set (buffers_m c). pkt_len_m b = 0) \<longrightarrow> size_of_chain c True = Some 0) \<and>
         size_of_chain c False = Some (size_m c) \<and>
         unat (size_m c) = total_len (buffers_m c) - unat (read_cursor_off_m c) \<and>
         unat (size_m c) = length (chain_bytes c)"
proof -
  have e: "(size_m c = 0) = (buffers_m c = [])" using assms by (rule chain_inv_empty_iff)
  have 1: "size_of_chain c True =
             Some (case buffers_m c of [] \<Rightarrow> 0 | b # _ \<Rightarrow> ucast (pkt_len_m b))"
    using e by (cases "buffers_m c") (auto simp: size_of_chain_def front_def)
  have 2: "(\<forall>b \<in> set (buffers_m c). pkt_len_m b = 0) \<longrightarrow> size_of_chain c True = Some 0"
    using 1 by (cases "buffers_m c") auto
  have 3: "unat (size_m c) = total_len (buffers_m c) - unat (read_cursor_off_m c)"
    using assms unfolding chain_inv_def by linarith
  have "length (concat (map valid_bytes bs)) = total_len bs" for bs
    by (induction bs) (auto simp: valid_bytes_def)
  then have 4: "unat (size_m c) = length (chain_bytes c)"
    using 3 by (simp add: chain_bytes_def)
  show ?thesis using 1 2 3 4 by (simp add: size_of_chain_def)
qed

theorem size_of_chain_spec_witness:
  "chain_inv ex_dgram_chain \<and> size_of_chain ex_dgram_chain True = Some 3 \<and>
   size_of_chain ex_dgram_chain False = Some 8 \<and>
   chain_inv ex_stream_chain \<and> map pkt_len_m (buffers_m ex_stream_chain) = [0] \<and>
   size_of_chain ex_stream_chain True = Some 0 \<and>
   size_of_chain ex_stream_chain False = Some 3 \<and> length (chain_bytes ex_stream_chain) = 3"
  using size_of_chain_spec [OF chain_inv_ex_dgram] size_of_chain_spec [OF chain_inv_ex_stream]
    chain_inv_ex_dgram chain_inv_ex_stream
  by (simp add: ex_dgram_chain_def ex_stream_chain_def ex_buf_def)

section \<open>Read: a read of length 0\<close>

text \<open>
  C10. On a chain whose head cell starts a datagram (\<open>pkt_len_\<close> not 0), \<open>Read\<close> with
  \<open>len = 0\<close> and \<open>datagram = true\<close> returns \<open>(0, ZX_OK)\<close> and leaves the chain, the
  allocator and the user memory as they were: the head datagram stays.
\<close>

theorem Read_zero_len_datagram:
  assumes "buffers_m c = b # bs" "pkt_len_m b \<noteq> 0"
  shows "Read c pmm dst 0 True = Some (c, pmm, dst, 0, ZX_OK)"
  using assms
  by (simp add: Read_def ReadHelper_def front_def ReadHelper_loop.simps ReadHelper_cond_def)

theorem Read_zero_len_datagram_witness:
  "buffers_m ex_dgram_chain = ex_buf 3 3 65 # [ex_buf 5 5 66] \<and> pkt_len_m (ex_buf 3 3 65) \<noteq> 0 \<and>
   Read ex_dgram_chain [] ex_dst 0 True = Some (ex_dgram_chain, [], ex_dst, 0, ZX_OK)"
  using Read_zero_len_datagram [of ex_dgram_chain "ex_buf 3 3 65" "[ex_buf 5 5 66]" "[]" ex_dst]
  by (simp add: ex_dgram_chain_def ex_buf_def)

section \<open>One pass of the read loop\<close>

lemma ReadHelper_body_consume:
  fixes s :: ReadHelper_state
  assumes inv: "chain_inv \<lparr>buffers_m = b # bs, read_cursor_off_m = rh_read_off s, size_m = rh_size s\<rparr>"
    and bs: "rh_buffers s = b # bs" and it: "rh_iter s = 0" and pos: "rh_pos s < len"
    and n: "n = min (unat (len_m b) - unat (rh_read_off s)) (unat len - unat (rh_pos s))"
    and st: "st = out_fault (rh_dst s) (unat (rh_pos s)) n"
    and pop: "pop = (dg \<or> (st = ZX_OK \<and> unat (rh_read_off s) + n = unat (len_m b)))"
    and s': "s' = ReadHelper_body False dg len s"
  shows "rh_status s' = st"
    and "rh_dst s' = snd (copy_array_to_user (rh_dst s) (unat (rh_pos s)) (data_m b)
                            (unat (rh_read_off s)) n)"
    and "unat (rh_pos s') = (if st = ZX_OK then unat (rh_pos s) + n else unat (rh_pos s))"
    and "rh_iter s' = 0"
    and "rh_buffers s' = (if pop then bs else b # bs)"
    and "rh_free_list s' = (if pop then b # rh_free_list s else rh_free_list s)"
    and "unat (rh_read_off s') =
           (if pop then 0 else if st = ZX_OK then unat (rh_read_off s) + n
            else unat (rh_read_off s))"
    and "unat (rh_size s') =
           (if pop then unat (rh_size s) - (unat (len_m b) - unat (rh_read_off s))
            else if st = ZX_OK then unat (rh_size s) - n else unat (rh_size s))"
proof -
  define l where "l = unat (len_m b)"
  define r where "r = unat (rh_read_off s)"
  define p where "p = unat (rh_pos s)"
  define L where "L = unat len"
  define z where "z = unat (rh_size s)"
  define CL :: size_t where "CL = min (ucast (len_m b - rh_read_off s)) (len - rh_pos s)"
  have rl: "r < l" and zs: "z + r = l + total_len bs"
    using inv by (auto simp: chain_inv_def l_def r_def z_def)
  have pL: "p < L" using pos by (simp add: p_def L_def word_less_nat_alt)
  have n': "n = min (l - r) (L - p)" using n by (simp add: l_def r_def L_def p_def)
  have d: "unat (len_m b - rh_read_off s) = l - r"
    using rl by (simp add: l_def r_def unat_sub word_le_nat_alt)
  have cl: "unat CL = n"
    using pL by (simp add: CL_def unat_min unat_up d n' unat_sub word_le_nat_alt L_def p_def)
  have nle: "n \<le> l - r" and nle2: "n \<le> L - p" by (simp_all add: n')
  have l32: "l < 2 ^ 32" using unsigned_less [of "len_m b"] by (simp add: l_def)
  have L64: "L < 2 ^ 64" using unsigned_less [of len] by (simp add: L_def)
  have n32: "n < 2 ^ 32" using l32 nle by simp
  have cd: "unat (ucast CL :: uint32_t) = n"
    using n32 by (simp add: unat_down cl)
  have ro1: "unat (rh_read_off s + ucast CL) = r + n"
    using rl l32 nle by (simp add: unat_word_ariths cd r_def [symmetric])
  have nz: "n \<le> z" using zs rl nle by linarith
  have sz1: "unat (rh_size s - CL) = z - n"
    using nz by (simp add: unat_sub word_le_nat_alt cl z_def)
  have d1: "unat (len_m b - (rh_read_off s + ucast CL)) = l - (r + n)"
    using rl nle by (simp add: unat_sub word_le_nat_alt ro1 l_def [symmetric])
  have popA: "unat (rh_size s - CL - ucast (len_m b - (rh_read_off s + ucast CL))) = z - (l - r)"
  proof -
    have "l - (r + n) \<le> z - n" using zs rl nz nle by linarith
    moreover have "z - n - (l - (r + n)) = z - (l - r)" using nle rl by linarith
    ultimately show ?thesis using nz by (simp add: unat_sub word_le_nat_alt unat_up d1 sz1)
  qed
  have eqA: "(rh_read_off s + ucast CL = len_m b) = (r + n = l)"
    using ro1 by (metis l_def word_unat_eq_iff)
  have popA': "r + n = l \<Longrightarrow> unat (rh_size s - CL) = z - (l - r)"
    using sz1 by simp
  have popC: "unat (rh_size s - ucast (len_m b - rh_read_off s)) = z - (l - r)"
    using zs rl by (simp add: unat_sub word_le_nat_alt unat_up d z_def [symmetric])
  have noD: "rh_read_off s \<noteq> len_m b" using rl by (auto simp: l_def r_def)
  have pos1: "unat (rh_pos s + CL) = p + n"
    using pL nle2 L64 by (simp add: unat_word_ariths cl p_def [symmetric])
  have cp: "copy_array_to_user (rh_dst s) (unat (rh_pos s)) (data_m b) (unat (rh_read_off s)) (unat CL)
            = (st, snd (copy_array_to_user (rh_dst s) (unat (rh_pos s)) (data_m b) (unat (rh_read_off s)) n))"
    by (simp add: cl st copy_array_to_user_def Let_def)
  have body: "s' =
     (let s1 = s\<lparr>rh_status := st,
                  rh_dst := snd (copy_array_to_user (rh_dst s) (unat (rh_pos s)) (data_m b) (unat (rh_read_off s)) n),
                  rh_pos := (if st = ZX_OK then rh_pos s + CL else rh_pos s)\<rparr>;
          read_off1 = (if st = ZX_OK then rh_read_off s + ucast CL else rh_read_off s);
          size1 = (if st = ZX_OK then rh_size s - CL else rh_size s)
      in if read_off1 = len_m b \<or> dg then
           s1\<lparr>rh_read_off := 0,
              rh_size := (if dg then size1 - ucast (len_m b - read_off1) else size1),
              rh_iter := 0, rh_free_list := b # rh_free_list s, rh_buffers := bs\<rparr>
         else s1\<lparr>rh_read_off := read_off1, rh_size := size1\<rparr>)"
    unfolding s' ReadHelper_body_def by (simp add: Let_def bs it CL_def [symmetric] cp)
  show "rh_status s' = st" by (simp add: body Let_def)
  show "rh_dst s' = snd (copy_array_to_user (rh_dst s) (unat (rh_pos s)) (data_m b)
                            (unat (rh_read_off s)) n)"
    by (simp add: body Let_def)
  show "unat (rh_pos s') = (if st = ZX_OK then unat (rh_pos s) + n else unat (rh_pos s))"
    using pos1 by (simp add: body Let_def p_def)
  show "rh_iter s' = 0" by (simp add: body Let_def it)
  show "rh_buffers s' = (if pop then bs else b # bs)"
    using noD by (auto simp: body Let_def bs pop eqA l_def r_def)
  show "rh_free_list s' = (if pop then b # rh_free_list s else rh_free_list s)"
    using noD by (auto simp: body Let_def pop eqA l_def r_def)
  show "unat (rh_read_off s') =
           (if pop then 0 else if st = ZX_OK then unat (rh_read_off s) + n
            else unat (rh_read_off s))"
    using noD ro1 by (auto simp: body Let_def pop eqA l_def r_def)
  show "unat (rh_size s') =
           (if pop then unat (rh_size s) - (unat (len_m b) - unat (rh_read_off s))
            else if st = ZX_OK then unat (rh_size s) - n else unat (rh_size s))"
    using noD popA popA' popC sz1
    by (auto simp: body Let_def pop eqA l_def [symmetric] r_def [symmetric] z_def [symmetric])
qed


section \<open>Read keeps the invariant\<close>

lemma ReadHelper_body_inv:
  assumes inv: "chain_inv (rh_chain s)" and it: "rh_iter s = 0" and c: "ReadHelper_cond len s"
  shows "chain_inv (rh_chain (ReadHelper_body False dg len s)) \<and>
         rh_iter (ReadHelper_body False dg len s) = 0"
proof -
  obtain b bs where bs: "rh_buffers s = b # bs"
    using c by (cases "rh_buffers s") (auto simp: ReadHelper_cond_def)
  have inv': "chain_inv \<lparr>buffers_m = b # bs, read_cursor_off_m = rh_read_off s, size_m = rh_size s\<rparr>"
    using inv by (simp add: rh_chain_def bs)
  have pos: "rh_pos s < len" using c by (simp add: ReadHelper_cond_def)
  define n where "n = min (unat (len_m b) - unat (rh_read_off s)) (unat len - unat (rh_pos s))"
  define st where "st = out_fault (rh_dst s) (unat (rh_pos s)) n"
  define pop where "pop = (dg \<or> (st = ZX_OK \<and> unat (rh_read_off s) + n = unat (len_m b)))"
  define s' where "s' = ReadHelper_body False dg len s"
  note f = ReadHelper_body_consume [OF inv' bs it pos n_def st_def pop_def s'_def]
  have nle: "n \<le> unat (len_m b) - unat (rh_read_off s)" by (simp add: n_def)
  have rl: "unat (rh_read_off s) < unat (len_m b)"
    and zs: "unat (rh_size s) + unat (rh_read_off s) = unat (len_m b) + total_len bs"
    using inv' by (auto simp: chain_inv_def)
  have "chain_inv (rh_chain s')"
  proof (cases pop)
    case True
    have "rh_read_off s' = 0" using f(7) True by (simp add: unat_eq_0)
    moreover have "unat (rh_size s') = unat (rh_size s) - (unat (len_m b) - unat (rh_read_off s))"
      using f(8) True by simp
    ultimately show ?thesis
      using chain_inv_pop [OF inv', of "rh_size s'"] f(5) True by (simp add: rh_chain_def)
  next
    case False
    then have np: "\<not> (st = ZX_OK \<and> unat (rh_read_off s) + n = unat (len_m b))"
      by (simp add: pop_def)
    have b5: "rh_buffers s' = b # bs" using f(5) False by simp
    show ?thesis
    proof (cases "st = ZX_OK")
      case True
      then have "unat (rh_read_off s) + n < unat (len_m b)" using np nle rl by linarith
      moreover have "unat (rh_read_off s') = unat (rh_read_off s) + n" using f(7) False True by simp
      moreover have "unat (rh_size s') = unat (rh_size s) - n" using f(8) False True by simp
      moreover have "n \<le> unat (rh_size s)" using nle zs rl by linarith
      ultimately show ?thesis using inv' b5
        by (auto simp: chain_inv_def rh_chain_def)
    next
      case F: False
      have "unat (rh_read_off s') = unat (rh_read_off s)" using f(7) False F by simp
      moreover have "unat (rh_size s') = unat (rh_size s)" using f(8) False F by simp
      ultimately show ?thesis using inv' b5
        by (auto simp: chain_inv_def rh_chain_def)
    qed
  qed
  then show ?thesis using f(4) by (simp add: s'_def)
qed

lemma ReadHelper_loop_step:
  "ReadHelper_cond len s \<Longrightarrow>
   ReadHelper_loop k dg len s = ReadHelper_loop k dg len (ReadHelper_body k dg len s)"
  by (subst ReadHelper_loop.simps) simp

lemma ReadHelper_loop_stop:
  "\<not> ReadHelper_cond len s \<Longrightarrow> ReadHelper_loop k dg len s = s"
  by (subst ReadHelper_loop.simps) simp

lemma ReadHelper_loop_inv:
  "chain_inv (rh_chain s) \<Longrightarrow> rh_iter s = 0 \<Longrightarrow>
   chain_inv (rh_chain (ReadHelper_loop False dg len s)) \<and>
   rh_iter (ReadHelper_loop False dg len s) = 0"
proof (induction "False" dg len s rule: ReadHelper_loop.induct)
  case (1 dg len s)
  show ?case
  proof (cases "ReadHelper_cond len s")
    case True
    have "chain_inv (rh_chain (ReadHelper_body False dg len s)) \<and>
          rh_iter (ReadHelper_body False dg len s) = 0"
      using ReadHelper_body_inv "1.prems" True by blast
    then show ?thesis using "1.hyps" True by (simp add: ReadHelper_loop_step)
  next
    case False
    then show ?thesis using "1.prems" by (simp add: ReadHelper_loop_stop)
  qed
qed

lemma ReadHelper_drain_inv:
  "chain_inv \<lparr>buffers_m = bufs, read_cursor_off_m = ro, size_m = sz\<rparr> \<Longrightarrow>
   ReadHelper_drain bufs ro sz fl = (bufs', ro', sz', fl') \<Longrightarrow>
   chain_inv \<lparr>buffers_m = bufs', read_cursor_off_m = ro', size_m = sz'\<rparr>"
proof (induction bufs arbitrary: ro sz fl)
  case Nil
  then show ?case by simp
next
  case (Cons cur rest)
  show ?case
  proof (cases "pkt_len_m cur = 0")
    case True
    have rl: "unat ro < unat (len_m cur)"
      and zs: "unat sz + unat ro = unat (len_m cur) + total_len rest"
      using Cons.prems(1) by (auto simp: chain_inv_def)
    have d: "unat (len_m cur - ro) = unat (len_m cur) - unat ro"
      using rl by (simp add: unat_sub word_le_nat_alt)
    have "unat (sz - ucast (len_m cur - ro)) = unat sz - (unat (len_m cur) - unat ro)"
      using zs rl by (simp add: unat_sub word_le_nat_alt unat_up d)
    then have "chain_inv \<lparr>buffers_m = rest, read_cursor_off_m = 0,
                 size_m = sz - ucast (len_m cur - ro)\<rparr>"
      using chain_inv_pop [OF Cons.prems(1)] by simp
    then show ?thesis using Cons.IH Cons.prems(2) True by simp
  next
    case False
    then show ?thesis using Cons.prems by simp
  qed
qed

lemma Read_inv:
  assumes "chain_inv c"
  shows "\<exists>c' pmm' dst' actual st.
           Read c pmm dst len dg = Some (c', pmm', dst', actual, st) \<and> chain_inv c'"
proof (cases "size_m c = 0")
  case True
  then show ?thesis using assms by (simp add: Read_def ReadHelper_def)
next
  case False
  then obtain b bs where bs: "buffers_m c = b # bs"
    using chain_inv_empty_iff [OF assms] by (cases "buffers_m c") auto
  define len' where "len' = (if dg then (if len > ucast (pkt_len_m b) then ucast (pkt_len_m b) else len) else len)"
  define s0 where "s0 = \<lparr>rh_pos = 0, rh_iter = 0, rh_read_off = read_cursor_off_m c,
                         rh_status = ZX_OK, rh_buffers = buffers_m c, rh_size = size_m c,
                         rh_free_list = [], rh_dst = dst\<rparr>"
  define s where "s = ReadHelper_loop False dg len' s0"
  have "rh_chain s0 = c" by (simp add: rh_chain_def s0_def)
  then have "chain_inv (rh_chain s0)" using assms by simp
  then have i: "chain_inv (rh_chain s)"
    using ReadHelper_loop_inv [of s0 dg len'] by (simp add: s_def s0_def)
  obtain bufs' ro' sz' fl' where dr:
    "ReadHelper_drain (rh_buffers s) (rh_read_off s) (rh_size s) (rh_free_list s) = (bufs', ro', sz', fl')"
    by (cases "ReadHelper_drain (rh_buffers s) (rh_read_off s) (rh_size s) (rh_free_list s)") auto
  have j: "chain_inv \<lparr>buffers_m = bufs', read_cursor_off_m = ro', size_m = sz'\<rparr>"
    using ReadHelper_drain_inv [OF _ dr] i by (simp add: rh_chain_def)
  show ?thesis
    using False bs i j dr
    by (auto simp: Read_def ReadHelper_def front_def Let_def len'_def s_def s0_def rh_chain_def)
qed

section \<open>Peek\<close>

lemma blit_below: "i < doff \<Longrightarrow> blit dst doff n f i = dst i"
  by (simp add: blit_def)

lemma blit_inside: "doff \<le> i \<Longrightarrow> i < doff + n \<Longrightarrow> blit dst doff n f i = f (i - doff)"
  by (simp add: blit_def)

lemma blit_absorb:
  "(\<And>i. doff \<le> i \<Longrightarrow> i < doff + n \<Longrightarrow> dst i = f (i - doff)) \<Longrightarrow> blit dst doff n f = dst"
  by (auto simp: blit_def fun_eq_iff)

lemma copy_array_to_user_faults:
  "out_fault (snd (copy_array_to_user dst off src soff n)) = out_fault dst \<and>
   out_partial (snd (copy_array_to_user dst off src soff n)) = out_partial dst \<and>
   fst (copy_array_to_user dst off src soff n) = out_fault dst off n"
  by (simp add: copy_array_to_user_def Let_def)

lemma ReadHelper_body_const:
  "ReadHelper_body True dg len s =
     s\<lparr>rh_status := rh_copy_status len s,
       rh_dst := (rh_dst s)\<lparr>out_bytes :=
                   blit (out_bytes (rh_dst s)) (unat (rh_pos s)) (rh_moved len s) (rh_src s)\<rparr>,
       rh_pos := (if rh_copy_status len s = ZX_OK then rh_pos s + rh_copy_len len s
                  else rh_pos s),
       rh_read_off := 0, rh_iter := rh_iter s + 1\<rparr>"
  by (simp add: ReadHelper_body_def Let_def copy_array_to_user_def rh_copy_len_def
        rh_copy_status_def rh_moved_def rh_src_def split: prod.splits)

lemma rh_copy_dst [simp]:
  "rh_copy_len len (s\<lparr>rh_dst := d\<rparr>) = rh_copy_len len s"
  "rh_src (s\<lparr>rh_dst := d\<rparr>) = rh_src s"
  by (simp_all add: rh_copy_len_def rh_src_def)

lemma rh_moved_dst:
  "out_fault d = out_fault (rh_dst s) \<Longrightarrow> out_partial d = out_partial (rh_dst s) \<Longrightarrow>
   rh_copy_status len (s\<lparr>rh_dst := d\<rparr>) = rh_copy_status len s \<and>
   rh_moved len (s\<lparr>rh_dst := d\<rparr>) = rh_moved len s"
  by (simp add: rh_moved_def rh_copy_status_def)

lemma ReadHelper_loop_const_chain:
  "rh_buffers (ReadHelper_loop True dg len s) = rh_buffers s \<and>
   rh_size (ReadHelper_loop True dg len s) = rh_size s \<and>
   rh_free_list (ReadHelper_loop True dg len s) = rh_free_list s \<and>
   out_fault (rh_dst (ReadHelper_loop True dg len s)) = out_fault (rh_dst s) \<and>
   out_partial (rh_dst (ReadHelper_loop True dg len s)) = out_partial (rh_dst s)"
proof (induction "True" dg len s rule: ReadHelper_loop.induct)
  case (1 dg len s)
  show ?case
  proof (cases "ReadHelper_cond len s")
    case True
    then show ?thesis
      using "1.hyps" by (simp add: ReadHelper_loop_step ReadHelper_body_const)
  next
    case False
    then show ?thesis by (simp add: ReadHelper_loop_stop)
  qed
qed

lemma pos_advance:
  fixes pos len x :: size_t
  assumes "pos < len"
  shows "unat (pos + min x (len - pos)) = unat pos + unat (min x (len - pos))"
    and "pos + min x (len - pos) \<le> len"
proof -
  have a: "unat (min x (len - pos)) \<le> unat len - unat pos"
    using assms by (simp add: unat_min unat_sub word_le_nat_alt word_less_nat_alt)
  have b: "unat len < 2 ^ 64" using unsigned_less [of len] by simp
  have c: "unat pos < unat len" using assms by (simp add: word_less_nat_alt)
  show u: "unat (pos + min x (len - pos)) = unat pos + unat (min x (len - pos))"
    using a b c by (simp add: unat_word_ariths)
  show "pos + min x (len - pos) \<le> len"
    using a c by (simp add: word_le_nat_alt u)
qed

lemma ReadHelper_body_const_pos:
  assumes "ReadHelper_cond len s"
  shows "rh_pos (ReadHelper_body True dg len s) \<le> len"
    and "unat (rh_pos s) \<le> unat (rh_pos (ReadHelper_body True dg len s))"
  using assms pos_advance [of "rh_pos s" len]
  by (auto simp: ReadHelper_body_const ReadHelper_cond_def rh_copy_len_def word_le_nat_alt
        word_less_nat_alt)

lemma ReadHelper_loop_const_below:
  "rh_pos s \<le> len \<Longrightarrow> i < unat (rh_pos s) \<Longrightarrow>
   out_bytes (rh_dst (ReadHelper_loop True dg len s)) i = out_bytes (rh_dst s) i"
proof (induction "True" dg len s rule: ReadHelper_loop.induct)
  case (1 dg len s)
  show ?case
  proof (cases "ReadHelper_cond len s")
    case True
    let ?s1 = "ReadHelper_body True dg len s"
    have "out_bytes (rh_dst (ReadHelper_loop True dg len ?s1)) i = out_bytes (rh_dst ?s1) i"
      using "1.hyps" [OF True] ReadHelper_body_const_pos [OF True, of dg] "1.prems" by simp
    moreover have "out_bytes (rh_dst ?s1) i = out_bytes (rh_dst s) i"
      using "1.prems"(2)
      by (simp add: ReadHelper_body_const blit_below)
    ultimately show ?thesis using True by (simp add: ReadHelper_loop_step)
  next
    case False
    then show ?thesis by (simp add: ReadHelper_loop_stop)
  qed
qed

lemma ReadHelper_cond_dst [simp]:
  "ReadHelper_cond len (s\<lparr>rh_dst := d\<rparr>) = ReadHelper_cond len s"
  by (simp add: ReadHelper_cond_def)

lemma ReadHelper_loop_const_idem:
  "rh_pos s \<le> len \<Longrightarrow>
   ReadHelper_loop True dg len (s\<lparr>rh_dst := rh_dst (ReadHelper_loop True dg len s)\<rparr>)
     = ReadHelper_loop True dg len s"
proof (induction "True" dg len s rule: ReadHelper_loop.induct)
  case (1 dg len s)
  show ?case
  proof (cases "ReadHelper_cond len s")
    case False
    then show ?thesis by (simp add: ReadHelper_loop_stop)
  next
    case True
    define s1 where "s1 = ReadHelper_body True dg len s"
    define F where "F = rh_dst (ReadHelper_loop True dg len s1)"
    let ?p = "unat (rh_pos s)"
    have loop: "ReadHelper_loop True dg len s = ReadHelper_loop True dg len s1"
      using True by (simp add: ReadHelper_loop_step s1_def)
    have pl: "rh_pos s < len" using True by (simp add: ReadHelper_cond_def)
    have p1: "rh_pos s1 \<le> len"
      using ReadHelper_body_const_pos(1) [OF True] by (simp add: s1_def)
    have fa: "out_fault F = out_fault (rh_dst s)" "out_partial F = out_partial (rh_dst s)"
      using ReadHelper_loop_const_chain [of dg len s1]
      by (simp_all add: F_def s1_def ReadHelper_body_const)
    have d1: "out_bytes (rh_dst s1) = blit (out_bytes (rh_dst s)) ?p (rh_moved len s) (rh_src s)"
      by (simp add: s1_def ReadHelper_body_const)
    have inside: "out_bytes F i = rh_src s (i - ?p)" if "?p \<le> i" "i < ?p + rh_moved len s" for i
    proof (cases "rh_copy_status len s = ZX_OK")
      case ok: True
      have "unat (rh_pos s1) = ?p + unat (rh_copy_len len s)"
        using ok pos_advance(1) [OF pl]
        by (simp add: s1_def ReadHelper_body_const rh_copy_len_def)
      then have "i < unat (rh_pos s1)" using that ok by (simp add: rh_moved_def)
      then have "out_bytes F i = out_bytes (rh_dst s1) i"
        using ReadHelper_loop_const_below [OF p1, of i dg] by (simp add: F_def)
      then show ?thesis using that by (simp add: d1 blit_inside)
    next
      case bad: False
      then have "\<not> ReadHelper_cond len s1"
        by (simp add: ReadHelper_cond_def s1_def ReadHelper_body_const)
      then have "F = rh_dst s1" by (simp add: F_def ReadHelper_loop_stop)
      then show ?thesis using that by (simp add: d1 blit_inside)
    qed
    have ab: "blit (out_bytes F) ?p (rh_moved len s) (rh_src s) = out_bytes F"
      by (rule blit_absorb) (use inside in blast)
    have "ReadHelper_body True dg len (s\<lparr>rh_dst := F\<rparr>) = s1\<lparr>rh_dst := F\<rparr>"
      using rh_moved_dst [OF fa, of len]
      by (simp add: s1_def ReadHelper_body_const ab)
    then have "ReadHelper_loop True dg len (s\<lparr>rh_dst := F\<rparr>)
               = ReadHelper_loop True dg len (s1\<lparr>rh_dst := F\<rparr>)"
      using True by (simp add: ReadHelper_loop_step)
    also have "\<dots> = ReadHelper_loop True dg len s1"
      using "1.hyps" [OF True] p1 by (simp add: F_def s1_def)
    finally show ?thesis by (simp add: loop F_def)
  qed
qed


lemma Peek_returns_same:
  "(\<forall>c' pmm' dst' actual st.
      Peek c pmm dst len dg = Some (c', pmm', dst', actual, st) \<longrightarrow>
        c' = c \<and> pmm' = pmm \<and> Peek c pmm dst' len dg = Some (c, pmm, dst', actual, st)) \<and>
   (chain_inv c \<longrightarrow> (\<exists>dst' actual st. Peek c pmm dst len dg = Some (c, pmm, dst', actual, st)))"
proof (cases "size_m c = 0")
  case True
  then show ?thesis by (simp add: Peek_def ReadHelper_def)
next
  case False
  show ?thesis
  proof (cases "dg \<and> buffers_m c = []")
    case True
    then have "Peek c pmm dst' len dg = None" for dst'
      using False by (simp add: Peek_def ReadHelper_def front_def)
    moreover have "\<not> chain_inv c" using True False chain_inv_empty_iff by blast
    ultimately show ?thesis by simp
  next
    case nb: False
    define len' where "len' =
      (if dg then (if len > ucast (pkt_len_m (hd (buffers_m c)))
                   then ucast (pkt_len_m (hd (buffers_m c))) else len) else len)"
    define s0 where "s0 = (\<lambda>d. \<lparr>rh_pos = 0, rh_iter = 0, rh_read_off = read_cursor_off_m c,
                         rh_status = ZX_OK, rh_buffers = buffers_m c, rh_size = size_m c,
                         rh_free_list = [], rh_dst = d\<rparr>)"
    define s where "s = ReadHelper_loop True dg len' (s0 dst)"
    have rc: "\<lparr>buffers_m = buffers_m c, read_cursor_off_m = read_cursor_off_m c,
               size_m = size_m c\<rparr> = c"
      by simp
    have pk: "Peek c pmm d len dg =
                Some (c, pmm, rh_dst (ReadHelper_loop True dg len' (s0 d)),
                      rh_pos (ReadHelper_loop True dg len' (s0 d)),
                      rh_status (ReadHelper_loop True dg len' (s0 d)))" for d
    proof -
      have "rh_buffers (ReadHelper_loop True dg len' (s0 d)) = buffers_m c"
           "rh_size (ReadHelper_loop True dg len' (s0 d)) = size_m c"
        using ReadHelper_loop_const_chain [of dg len' "s0 d"] by (simp_all add: s0_def)
      then show ?thesis
        using False nb rc
        by (cases "buffers_m c")
           (auto simp: Peek_def ReadHelper_def front_def Let_def len'_def s0_def)
    qed
    have "s0 (rh_dst s) = (s0 dst)\<lparr>rh_dst := rh_dst s\<rparr>" by (simp add: s0_def)
    then have "ReadHelper_loop True dg len' (s0 (rh_dst s)) = s"
      using ReadHelper_loop_const_idem [of "s0 dst" len' dg] by (simp add: s_def s0_def)
    then have "Peek c pmm (rh_dst s) len dg = Some (c, pmm, rh_dst s, rh_pos s, rh_status s)"
      using pk [of "rh_dst s"] by simp
    then show ?thesis using pk [of dst] by (auto simp: s_def)
  qed
qed

text \<open>
  C7. Whenever \<open>Peek\<close> returns, the chain and the allocator it leaves are the ones it was
  given (no cell unlinked or freed, \<open>size_\<close> and \<open>read_cursor_off_\<close> as before), whatever
  the status; a second \<open>Peek\<close> with the same arguments, on the user memory as the first
  one left it, returns the same \<open>actual\<close> and status and leaves that memory as it is.
  On a chain that satisfies the invariants \<open>Peek\<close> does return.
\<close>

theorem Peek_const_idempotent:
  "(\<forall>c' pmm' dst' actual st.
      Peek c pmm dst len dg = Some (c', pmm', dst', actual, st) \<longrightarrow>
        c' = c \<and> pmm' = pmm \<and> Peek c pmm dst' len dg = Some (c, pmm, dst', actual, st)) \<and>
   (chain_inv c \<longrightarrow> (\<exists>dst' actual st. Peek c pmm dst len dg = Some (c, pmm, dst', actual, st)))"
  by (rule Peek_returns_same)

theorem Peek_const_idempotent_witness:
  "\<exists>dst'. chain_inv ex_dgram_chain \<and>
     Peek ex_dgram_chain [] ex_dst 2 True = Some (ex_dgram_chain, [], dst', 2, ZX_OK) \<and>
     Peek ex_dgram_chain [] dst' 2 True = Some (ex_dgram_chain, [], dst', 2, ZX_OK) \<and>
     out_prefix dst' 2 = [65, 65]"
proof -
  define D where "D = ex_dst\<lparr>out_bytes := blit (out_bytes ex_dst) 0 2 (\<lambda>i. 65)\<rparr>"
  have 1: "Peek ex_dgram_chain [] ex_dst 2 True = Some (ex_dgram_chain, [], D, 2, ZX_OK)"
    by (simp add: D_def model_defs ex_defs)
  have 2: "Peek ex_dgram_chain [] D 2 True = Some (ex_dgram_chain, [], D, 2, ZX_OK)"
    using Peek_const_idempotent [of ex_dgram_chain "[]" ex_dst 2 True] 1 by simp
  have 3: "out_prefix D 2 = [65, 65]"
    by (simp add: D_def out_prefix_def blit_def ex_dst_def upt_rec)
  show ?thesis using 1 2 3 chain_inv_ex_dgram by blast
qed

section \<open>WriteStream: one buffer\<close>

lemma chain_inv_append:
  assumes "chain_inv \<lparr>buffers_m = bufs, read_cursor_off_m = ro, size_m = sz\<rparr>"
    and "\<forall>b \<in> set new. 0 < unat (len_m b) \<and> unat (len_m b) \<le> unat kPayloadSize"
    and "unat sz' = unat sz + total_len new" and "unat sz' \<le> unat kSizeMax"
  shows "chain_inv \<lparr>buffers_m = bufs @ new, read_cursor_off_m = ro, size_m = sz'\<rparr>"
proof (cases bufs)
  case Nil
  then show ?thesis using assms by (cases new) (auto simp: chain_inv_def)
next
  case (Cons b bs)
  then show ?thesis using assms by (auto simp: chain_inv_def)
qed

lemma chain_inv_grow_last:
  assumes "chain_inv \<lparr>buffers_m = xs @ [b], read_cursor_off_m = ro, size_m = sz\<rparr>"
    and "unat (len_m b') = unat (len_m b) + n" and "unat (len_m b') \<le> unat kPayloadSize"
    and "unat sz' = unat sz + n" and "unat sz' \<le> unat kSizeMax"
  shows "chain_inv \<lparr>buffers_m = xs @ [b'], read_cursor_off_m = ro, size_m = sz'\<rparr>"
  using assms by (cases xs) (auto simp: chain_inv_def)

lemma chain_inv_data_last:
  assumes "chain_inv \<lparr>buffers_m = xs @ [b], read_cursor_off_m = ro, size_m = sz\<rparr>"
  shows "chain_inv \<lparr>buffers_m = xs @ [b\<lparr>data_m := d\<rparr>], read_cursor_off_m = ro, size_m = sz\<rparr>"
  using assms by (cases xs) (auto simp: chain_inv_def)

lemma valid_bytes_blit_append:
  assumes a: "unat (len_m b') = unat (len_m b) + n"
    and d: "data_m b' = blit (data_m b) (unat (len_m b)) n f"
  shows "valid_bytes b' = valid_bytes b @ map f [0..<n]"
proof (rule nth_equalityI)
  show "length (valid_bytes b') = length (valid_bytes b @ map f [0..<n])"
    by (simp add: valid_bytes_def a)
next
  fix i assume "i < length (valid_bytes b')"
  then have i: "i < unat (len_m b) + n" by (simp add: valid_bytes_def a)
  show "valid_bytes b' ! i = (valid_bytes b @ map f [0..<n]) ! i"
  proof (cases "i < unat (len_m b)")
    case True
    then show ?thesis using i by (simp add: valid_bytes_def a d blit_def nth_append)
  next
    case False
    then show ?thesis using i by (simp add: valid_bytes_def a d blit_def nth_append)
  qed
qed

lemma in_range_map:
  "map (\<lambda>i. in_bytes src (p + i)) [0..<n] = map (in_bytes src) [p..<p + n]"
  by (rule nth_equalityI) simp_all

text \<open>What one call of \<open>write_buffer\<close> does, in numbers.\<close>

lemma write_buffer_step:
  assumes l: "unat (len_m buf) \<le> 4064" and p: "unat pos \<le> unat len"
    and z: "unat sz + (unat len - unat pos) < 2 ^ 64"
    and n: "n = min (4064 - unat (len_m buf)) (unat len - unat pos)"
    and w: "write_buffer src len pos sz buf = (st, buf', pos', sz')"
  shows "st = in_fault src (unat pos) n"
    and "pkt_len_m buf' = pkt_len_m buf" and "page_m buf' = page_m buf"
    and "st \<noteq> ZX_OK \<Longrightarrow> pos' = pos \<and> sz' = sz \<and> len_m buf' = len_m buf \<and>
           valid_bytes buf' = valid_bytes buf"
    and "st = ZX_OK \<Longrightarrow> unat pos' = unat pos + n \<and> unat sz' = unat sz + n \<and>
           unat (len_m buf') = unat (len_m buf) + n \<and>
           valid_bytes buf' = valid_bytes buf @ map (in_bytes src) [unat pos..<unat pos + n]"
proof -
  define CL where "CL = min (rem buf) (len - pos)"
  have r: "unat (rem buf) = 4064 - unat (len_m buf)"
    using l by (simp add: rem_def kPayloadSize_val unat_sub word_le_nat_alt unat_up)
  have cl: "unat CL = n"
    using p by (simp add: CL_def unat_min r n unat_sub word_le_nat_alt)
  have n1: "n \<le> 4064 - unat (len_m buf)" and n2: "n \<le> unat len - unat pos"
    by (simp_all add: n)
  have cd: "unat (ucast CL :: uint32_t) = n" using n1 by (simp add: unat_down cl)
  have L64: "unat len < 2 ^ 64" using unsigned_less [of len] by simp
  have a1: "unat (pos + CL) = unat pos + n"
    using n2 p L64 by (simp add: unat_word_ariths cl)
  have a2: "unat (sz + CL) = unat sz + n"
    using n2 z by (simp add: unat_word_ariths cl)
  have a3: "unat (len_m buf + ucast CL) = unat (len_m buf) + n"
    using n1 l by (simp add: unat_word_ariths cd)
  obtain d where c: "copy_array_from_user src (unat pos) (data_m buf) (unat (len_m buf)) n
                     = (in_fault src (unat pos) n, d)"
    by (simp add: copy_array_from_user_def Let_def)
  have dlow: "\<forall>i < unat (len_m buf). d i = data_m buf i"
    using c by (auto simp: copy_array_from_user_def Let_def blit_below)
  have dok: "in_fault src (unat pos) n = ZX_OK \<Longrightarrow>
             d = blit (data_m buf) (unat (len_m buf)) n (\<lambda>i. in_bytes src (unat pos + i))"
    using c by (auto simp: copy_array_from_user_def Let_def)
  have wb: "(st, buf', pos', sz') =
     (if in_fault src (unat pos) n \<noteq> ZX_OK then (in_fault src (unat pos) n, buf\<lparr>data_m := d\<rparr>, pos, sz)
      else (ZX_OK, buf\<lparr>data_m := d, len_m := len_m buf + ucast CL\<rparr>, pos + CL, sz + CL))"
    using w by (simp add: write_buffer_def Let_def CL_def [symmetric] cl c)
  show "st = in_fault src (unat pos) n" using wb by (auto split: if_splits)
  show "pkt_len_m buf' = pkt_len_m buf" using wb by (auto split: if_splits)
  show "page_m buf' = page_m buf" using wb by (auto split: if_splits)
  show "st \<noteq> ZX_OK \<Longrightarrow> pos' = pos \<and> sz' = sz \<and> len_m buf' = len_m buf \<and>
           valid_bytes buf' = valid_bytes buf"
    using wb dlow by (auto simp: valid_bytes_def split: if_splits)
  show "st = ZX_OK \<Longrightarrow> unat pos' = unat pos + n \<and> unat sz' = unat sz + n \<and>
           unat (len_m buf') = unat (len_m buf) + n \<and>
           valid_bytes buf' = valid_bytes buf @ map (in_bytes src) [unat pos..<unat pos + n]"
  proof -
    assume ok: "st = ZX_OK"
    then have ok': "in_fault src (unat pos) n = ZX_OK" using wb by (auto split: if_splits)
    have b': "buf' = buf\<lparr>data_m := d, len_m := len_m buf + ucast CL\<rparr>"
      and p': "pos' = pos + CL" and s': "sz' = sz + CL"
      using wb ok' by simp_all
    have "valid_bytes buf' = valid_bytes buf @ map (\<lambda>i. in_bytes src (unat pos + i)) [0..<n]"
      by (rule valid_bytes_blit_append) (simp_all add: b' a3 dok [OF ok'])
    then show ?thesis by (simp add: p' s' b' a1 a2 a3 in_range_map)
  qed
qed

section \<open>WriteStream: the loop over new buffers\<close>

lemma fit_step:
  fixes L p m n :: nat
  assumes "p \<le> L" "L - p \<le> 4064 * Suc m" "4064 * Suc m < L - p + 4064"
    and "n = min 4064 (L - p)"
  shows "0 < n" "p + n \<le> L" "L - (p + n) \<le> 4064 * m" "4064 * m < L - (p + n) + 4064"
  using assms by (auto simp: min_def)

lemma valid_bytes_fresh: "len_m b = 0 \<Longrightarrow> valid_bytes b = []"
  by (simp add: valid_bytes_def)

lemma WriteStream_loop_spec:
  assumes "\<forall>b \<in> set bufs. len_m b = 0 \<and> pkt_len_m b = 0"
    and "unat pos \<le> unat len"
    and "unat len - unat pos \<le> 4064 * length bufs"
    and "4064 * length bufs < unat len - unat pos + 4064"
    and "unat sz + (unat len - unat pos) < 2 ^ 64"
    and "WriteStream_loop src len pos sz buffers bufs = (st, pos2, sz2, buffers2, bufs2)"
  shows "\<exists>new. buffers2 = buffers @ new \<and> length new + length bufs2 = length bufs \<and>
      (\<forall>b \<in> set new. 0 < unat (len_m b) \<and> unat (len_m b) \<le> 4064 \<and> pkt_len_m b = 0) \<and>
      unat pos \<le> unat pos2 \<and> unat pos2 \<le> unat len \<and>
      total_len new = unat pos2 - unat pos \<and>
      unat sz2 = unat sz + (unat pos2 - unat pos) \<and>
      concat (map valid_bytes new) = map (in_bytes src) [unat pos..<unat pos2] \<and>
      (st = ZX_OK \<longrightarrow> pos2 = len \<and> bufs2 = []) \<and>
      (st \<noteq> ZX_OK \<longrightarrow> bufs2 \<noteq> [] \<and>
         st = in_fault src (unat pos2) (min 4064 (unat len - unat pos2)))"
  using assms
proof (induction bufs arbitrary: pos sz buffers)
  case Nil
  then have "unat pos = unat len" by simp
  then have "pos = len" by (simp add: word_unat_eq_iff)
  then show ?case using Nil by auto
next
  case (Cons b rest)
  define n where "n = min (4064 - unat (len_m b)) (unat len - unat pos)"
  have b0: "len_m b = 0" "pkt_len_m b = 0" using Cons.prems(1) by simp_all
  have n': "n = min 4064 (unat len - unat pos)" by (simp add: n_def b0)
  obtain st1 b' pos' sz' where w: "write_buffer src len pos sz b = (st1, b', pos', sz')"
    by (cases "write_buffer src len pos sz b") auto
  have l0: "unat (len_m b) \<le> 4064" by (simp add: b0)
  note wb = write_buffer_step [OF l0 Cons.prems(2) Cons.prems(5) n_def w]
  have fit: "0 < n" "unat pos + n \<le> unat len" "unat len - (unat pos + n) \<le> 4064 * length rest"
      "4064 * length rest < unat len - (unat pos + n) + 4064"
    using fit_step [OF Cons.prems(2) _ _ n'] Cons.prems(3,4) by simp_all
  show ?case
  proof (cases "st1 = ZX_OK")
    case False
    then have r: "st = st1" "pos2 = pos'" "sz2 = sz'" "buffers2 = buffers" "bufs2 = b' # rest"
      using Cons.prems(6) w by simp_all
    have "pos' = pos" "sz' = sz" using wb(4) False by simp_all
    then show ?thesis using r wb(1) False Cons.prems(2) by (auto simp: n')
  next
    case True
    have rec: "WriteStream_loop src len pos' sz' (buffers @ [b']) rest
               = (st, pos2, sz2, buffers2, bufs2)"
      using Cons.prems(6) w True by simp
    have ok: "unat pos' = unat pos + n" "unat sz' = unat sz + n"
      "unat (len_m b') = unat (len_m b) + n"
      "valid_bytes b' = valid_bytes b @ map (in_bytes src) [unat pos..<unat pos + n]"
      using wb(5) True by simp_all
    have pre: "\<forall>b \<in> set rest. len_m b = 0 \<and> pkt_len_m b = 0" using Cons.prems(1) by simp
    have z': "unat sz' + (unat len - unat pos') < 2 ^ 64"
      using Cons.prems(5) ok(1,2) fit(2) by simp
    obtain new' where ih: "buffers2 = (buffers @ [b']) @ new'"
      "length new' + length bufs2 = length rest"
      "\<forall>b \<in> set new'. 0 < unat (len_m b) \<and> unat (len_m b) \<le> 4064 \<and> pkt_len_m b = 0"
      "unat pos' \<le> unat pos2" "unat pos2 \<le> unat len"
      "total_len new' = unat pos2 - unat pos'"
      "unat sz2 = unat sz' + (unat pos2 - unat pos')"
      "concat (map valid_bytes new') = map (in_bytes src) [unat pos'..<unat pos2]"
      "st = ZX_OK \<longrightarrow> pos2 = len \<and> bufs2 = []"
      "st \<noteq> ZX_OK \<longrightarrow> bufs2 \<noteq> [] \<and>
         st = in_fault src (unat pos2) (min 4064 (unat len - unat pos2))"
      using Cons.IH [OF pre _ _ _ z' rec] fit ok(1) by auto
    have bl: "unat (len_m b') = n" using ok(3) b0 by simp
    have vb: "valid_bytes b' = map (in_bytes src) [unat pos..<unat pos + n]"
      using ok(4) b0 by (simp add: valid_bytes_fresh)
    have cat: "concat (map valid_bytes (b' # new')) = map (in_bytes src) [unat pos..<unat pos2]"
    proof -
      have "[unat pos..<unat pos2] = [unat pos..<unat pos + n] @ [unat pos + n..<unat pos2]"
        using ih(4) ok(1) by (metis le_add1 upt_add_eq_append le_Suc_ex)
      then show ?thesis using vb ih(8) ok(1) by simp
    qed
    have "buffers2 = buffers @ (b' # new')" using ih(1) by simp
    moreover have "length (b' # new') + length bufs2 = length (b # rest)" using ih(2) by simp
    moreover have "\<forall>x \<in> set (b' # new'). 0 < unat (len_m x) \<and> unat (len_m x) \<le> 4064 \<and> pkt_len_m x = 0"
      using ih(3) bl fit(1) wb(2) b0 n' by auto
    moreover have "unat pos \<le> unat pos2" using ih(4) ok(1) by simp
    moreover have "total_len (b' # new') = unat pos2 - unat pos" using ih(4,6) ok(1) bl by simp
    moreover have "unat sz2 = unat sz + (unat pos2 - unat pos)" using ih(4,7) ok(1,2) by simp
    ultimately show ?thesis using ih(5,9,10) cat by blast
  qed
qed

section \<open>WriteStream: the whole operation\<close>

lemma chain_rebuild [simp]:
  "\<lparr>buffers_m = buffers_m c, read_cursor_off_m = read_cursor_off_m c, size_m = size_m c\<rparr>
     = (c :: MBufChain)"
  by simp

lemma concat_valid_length: "length (concat (map valid_bytes bs)) = total_len bs"
  by (induction bs) (auto simp: valid_bytes_def)

lemma chain_inv_len_cong:
  assumes "chain_inv \<lparr>buffers_m = xs @ [b], read_cursor_off_m = ro, size_m = sz\<rparr>"
    and "len_m b' = len_m b"
  shows "chain_inv \<lparr>buffers_m = xs @ [b'], read_cursor_off_m = ro, size_m = sz\<rparr>"
  using assms by (cases xs) (auto simp: chain_inv_def)

lemma WriteStream_tail_spec:
  assumes inv: "chain_inv c" and L: "unat len \<le> 520192 - unat (size_m c)"
    and t: "WriteStream_tail src len c = (st1, buffers1, pos1, sz1)"
  shows "length buffers1 = length (buffers_m c)"
    and "map pkt_len_m buffers1 = map pkt_len_m (buffers_m c)"
    and "total_len buffers1 = total_len (buffers_m c) + unat pos1"
    and "concat (map valid_bytes buffers1)
           = concat (map valid_bytes (buffers_m c)) @ in_prefix src (unat pos1)"
    and "unat sz1 = unat (size_m c) + unat pos1"
    and "unat pos1 \<le> unat len"
    and "chain_inv \<lparr>buffers_m = buffers1, read_cursor_off_m = read_cursor_off_m c,
                    size_m = sz1\<rparr>"
    and "st1 \<noteq> ZX_OK \<longrightarrow> pos1 = 0 \<and> (\<exists>n. st1 = in_fault src 0 n)"
proof -
  have zmax: "unat (size_m c) \<le> 520192" using inv by (simp add: chain_inv_def kSizeMax_val)
  have all: "length buffers1 = length (buffers_m c) \<and>
    map pkt_len_m buffers1 = map pkt_len_m (buffers_m c) \<and>
    total_len buffers1 = total_len (buffers_m c) + unat pos1 \<and>
    concat (map valid_bytes buffers1)
           = concat (map valid_bytes (buffers_m c)) @ in_prefix src (unat pos1) \<and>
    unat sz1 = unat (size_m c) + unat pos1 \<and>
    unat pos1 \<le> unat len \<and>
    chain_inv \<lparr>buffers_m = buffers1, read_cursor_off_m = read_cursor_off_m c,
                    size_m = sz1\<rparr> \<and>
    (st1 \<noteq> ZX_OK \<longrightarrow> pos1 = 0 \<and> (\<exists>n. st1 = in_fault src 0 n))"
  proof (cases "buffers_m c \<noteq> [] \<and> rem (last (buffers_m c)) > 0")
    case False
    then have "st1 = ZX_OK" "buffers1 = buffers_m c" "pos1 = 0" "sz1 = size_m c"
      using t by (auto simp: WriteStream_tail_def)
    then show ?thesis using inv by (simp add: in_prefix_def)
  next
    case True
    define xs where "xs = butlast (buffers_m c)"
    define b where "b = last (buffers_m c)"
    have bufs: "buffers_m c = xs @ [b]" using True by (simp add: xs_def b_def)
    have inv': "chain_inv \<lparr>buffers_m = xs @ [b], read_cursor_off_m = read_cursor_off_m c,
                 size_m = size_m c\<rparr>"
      using inv chain_rebuild [of c] by (simp only: bufs)
    have l: "unat (len_m b) \<le> 4064"
      using inv by (simp add: chain_inv_def bufs kPayloadSize_val)
    obtain b' where w: "write_buffer src len 0 (size_m c) b = (st1, b', pos1, sz1)"
      and b1: "buffers1 = xs @ [b']"
      using t True by (auto simp: WriteStream_tail_def xs_def b_def split: prod.splits)
    define n where "n = min (4064 - unat (len_m b)) (unat len - unat (0 :: size_t))"
    have z: "unat (size_m c) + (unat len - unat (0 :: size_t)) < 2 ^ 64"
      using L zmax by simp
    have p0: "unat (0 :: size_t) \<le> unat len" by simp
    note wb = write_buffer_step [OF l p0 z n_def w]
    show ?thesis
    proof (cases "st1 = ZX_OK")
      case False
      have e: "pos1 = 0" "sz1 = size_m c" "len_m b' = len_m b" "valid_bytes b' = valid_bytes b"
        using wb(4) False by simp_all
      have "chain_inv \<lparr>buffers_m = xs @ [b'], read_cursor_off_m = read_cursor_off_m c,
                 size_m = size_m c\<rparr>"
        using chain_inv_len_cong [OF inv' e(3)] .
      then show ?thesis using e wb(1,2) False
        by (auto simp: b1 bufs in_prefix_def)
    next
      case True
      have e: "unat pos1 = n" "unat sz1 = unat (size_m c) + n"
        "unat (len_m b') = unat (len_m b) + n"
        "valid_bytes b' = valid_bytes b @ map (in_bytes src) [0..<n]"
        using wb(5) True by simp_all
      have nl: "n \<le> unat len" "unat (len_m b) + n \<le> 4064" using l by (simp_all add: n_def)
      have "chain_inv \<lparr>buffers_m = xs @ [b'], read_cursor_off_m = read_cursor_off_m c,
                 size_m = sz1\<rparr>"
        using inv' e(3) _ e(2)
      proof (rule chain_inv_grow_last)
        show "unat (len_m b') \<le> unat kPayloadSize" using e(3) nl by (simp add: kPayloadSize_val)
        show "unat sz1 \<le> unat kSizeMax" using e(2) nl L zmax by (simp add: kSizeMax_val)
      qed
      then show ?thesis using e wb(2) True nl
        by (auto simp: b1 bufs in_prefix_def)
    qed
  qed
  show "length buffers1 = length (buffers_m c)"
    and "map pkt_len_m buffers1 = map pkt_len_m (buffers_m c)"
    and "total_len buffers1 = total_len (buffers_m c) + unat pos1"
    and "concat (map valid_bytes buffers1)
           = concat (map valid_bytes (buffers_m c)) @ in_prefix src (unat pos1)"
    and "unat sz1 = unat (size_m c) + unat pos1"
    and "unat pos1 \<le> unat len"
    and "chain_inv \<lparr>buffers_m = buffers1, read_cursor_off_m = read_cursor_off_m c,
                    size_m = sz1\<rparr>"
    and "st1 \<noteq> ZX_OK \<longrightarrow> pos1 = 0 \<and> (\<exists>n. st1 = in_fault src 0 n)"
    using all by blast+
qed


lemma chain_upd:
  "c\<lparr>buffers_m := X, size_m := Y\<rparr>
     = \<lparr>buffers_m = X, read_cursor_off_m = read_cursor_off_m c, size_m = Y\<rparr>"
  for c :: MBufChain
  by (cases c) simp

lemma num_buffers_fit:
  fixes m :: nat
  assumes "0 < m"
  shows "m \<le> 4064 * (1 + (m - 1) div 4064)" and "4064 * (1 + (m - 1) div 4064) < m + 4064"
proof -
  define q where "q = (m - 1) div 4064"
  define r where "r = (m - 1) mod 4064"
  have "m - 1 = 4064 * q + r" by (simp add: q_def r_def)
  moreover have "r < 4064" by (simp add: r_def)
  ultimately have "m = 4064 * q + r + 1" "r < 4064" using assms by linarith+
  then show "m \<le> 4064 * (1 + (m - 1) div 4064)"
    and "4064 * (1 + (m - 1) div 4064) < m + 4064"
    unfolding q_def [symmetric] by simp_all
qed
lemma AllocMBufs_fresh:
  "AllocMBufs num pmm = (Some bufs, pmm') \<Longrightarrow> \<forall>b \<in> set bufs. len_m b = 0 \<and> pkt_len_m b = 0"
  by (auto simp: AllocMBufs_def AllocPages_def MBuf_new_def split: if_splits)

lemma FreeMBufs_length: "length (FreeMBufs bufs pmm) = length bufs + length pmm"
  by (simp add: FreeMBufs_def FreeList_def)

lemma in_prefix_append:
  "p \<le> q \<Longrightarrow> in_prefix src p @ map (in_bytes src) [p..<q] = in_prefix src q"
proof -
  assume "p \<le> q"
  then have "[0..<q] = [0..<p] @ [p..<q]"
    using upt_add_eq_append [of 0 p "q - p"] by simp
  then show ?thesis by (simp add: in_prefix_def)
qed

lemma WriteStream_spec:
  assumes inv: "chain_inv c" and w: "WriteStream src len0 c pmm = (c', pmm', written, st)"
    and L: "L = min (520192 - unat (size_m c)) (unat len0)"
  shows "chain_inv c' \<and>
    read_cursor_off_m c' = read_cursor_off_m c \<and>
    unat (size_m c') = unat (size_m c) + unat written \<and>
    total_len (buffers_m c') = total_len (buffers_m c) + unat written \<and>
    concat (map valid_bytes (buffers_m c'))
      = concat (map valid_bytes (buffers_m c)) @ in_prefix src (unat written) \<and>
    unat written \<le> L \<and>
    length (buffers_m c') + length pmm' = length (buffers_m c) + length pmm \<and>
    length (buffers_m c) \<le> length (buffers_m c') \<and>
    (st = ZX_OK \<longrightarrow> 0 < unat written \<and>
       (unat written = L \<or> length pmm < 1 + (L - unat written - 1) div 4064)) \<and>
    (st \<noteq> ZX_OK \<longrightarrow> (st = ZX_ERR_SHOULD_WAIT \<and> written = 0) \<or>
       (\<exists>n. st = in_fault src (unat written) n))"
proof -
  define len where "len = min (kSizeMax - size_m c) len0"
  have zmax: "unat (size_m c) \<le> 520192" using inv by (simp add: chain_inv_def kSizeMax_val)
  have ul: "unat len = L"
    using zmax by (simp add: len_def unat_min unat_sub word_le_nat_alt kSizeMax_val L)
  have Lz: "L \<le> 520192 - unat (size_m c)" by (simp add: L)
  obtain st1 buffers1 pos1 sz1 where t: "WriteStream_tail src len c = (st1, buffers1, pos1, sz1)"
    by (cases "WriteStream_tail src len c") auto
  note T = WriteStream_tail_spec [OF inv _ t, unfolded ul, OF Lz]
  let ?G = "\<lambda>bufs' sz' pmm' written st.
    chain_inv \<lparr>buffers_m = bufs', read_cursor_off_m = read_cursor_off_m c, size_m = sz'\<rparr> \<and>
    unat sz' = unat (size_m c) + unat written \<and>
    total_len bufs' = total_len (buffers_m c) + unat written \<and>
    concat (map valid_bytes bufs')
      = concat (map valid_bytes (buffers_m c)) @ in_prefix src (unat written) \<and>
    unat written \<le> L \<and>
    length bufs' + length pmm' = length (buffers_m c) + length pmm \<and>
    length (buffers_m c) \<le> length bufs' \<and>
    (st = ZX_OK \<longrightarrow> 0 < unat written \<and>
       (unat written = L \<or> length pmm < 1 + (L - unat written - 1) div 4064)) \<and>
    (st \<noteq> ZX_OK \<longrightarrow> (st = ZX_ERR_SHOULD_WAIT \<and> written = 0) \<or>
       (\<exists>n. st = in_fault src (unat written) n))"
  have fin: "?G buffers1 sz1 pmm pos1 (WriteStream_finish pos1)"
    if "unat pos1 = L \<or> length pmm < 1 + (L - unat pos1 - 1) div 4064"
    using T that by (auto simp: WriteStream_finish_def unat_gt_0)
  have "\<exists>bufs' sz'. c' = c\<lparr>buffers_m := bufs', size_m := sz'\<rparr> \<and> ?G bufs' sz' pmm' written st"
  proof (cases "st1 = ZX_OK")
    case False
    then have "c' = c\<lparr>buffers_m := buffers1, size_m := sz1\<rparr>" "pmm' = pmm" "written = pos1"
      "st = st1"
      using w t by (auto simp: WriteStream_def Let_def len_def [symmetric])
    moreover have "?G buffers1 sz1 pmm pos1 st1" using T False by auto
    ultimately show ?thesis by blast
  next
    case ok1: True
    show ?thesis
    proof (cases "pos1 = len")
      case True
      then have "(c', pmm', written, st)
          = (c\<lparr>buffers_m := buffers1, size_m := sz1\<rparr>, pmm, pos1, WriteStream_finish pos1)"
        using w [symmetric] t ok1 by (auto simp: WriteStream_def Let_def len_def [symmetric])
      then have "c' = c\<lparr>buffers_m := buffers1, size_m := sz1\<rparr>" "pmm' = pmm" "written = pos1"
        "st = WriteStream_finish pos1"
        by simp_all
      moreover have "unat pos1 = L" using True ul by simp
      ultimately show ?thesis using fin by blast
    next
      case ne: False
      have pl: "unat pos1 < L" using ne T(6) ul by (metis le_neq_implies_less word_unat_eq_iff)
      have d: "unat (len - pos1) = L - unat pos1"
        using pl ul by (simp add: unat_sub word_le_nat_alt)
      define num where "num = NumBuffersForPayload (len - pos1)"
      have un: "unat num = 1 + (L - unat pos1 - 1) div 4064"
      proof -
        have "unat (len - pos1 - 1) = L - unat pos1 - 1"
          using pl d by (simp add: unat_sub word_le_nat_alt)
        then show ?thesis by (simp add: num_def unat_NumBuffersForPayload)
      qed
      obtain r pmm1 where a: "AllocMBufs num pmm = (r, pmm1)"
        by (cases "AllocMBufs num pmm") auto
      show ?thesis
      proof (cases r)
        case None
        then have "c' = c\<lparr>buffers_m := buffers1, size_m := sz1\<rparr>" "pmm' = pmm1"
          "written = pos1" "st = WriteStream_finish pos1"
          using w t ok1 ne a
          by (auto simp: WriteStream_def Let_def len_def [symmetric] num_def [symmetric])
        moreover have "pmm1 = pmm" "length pmm < unat num"
          using AllocMBufs_None a None by blast+
        ultimately show ?thesis using fin un by auto
      next
        case (Some bufs)
        have al: "length bufs = unat num" "unat num \<le> length pmm" "pmm1 = drop (unat num) pmm"
          using AllocMBufs_Some a Some by blast+
        have fresh: "\<forall>b \<in> set bufs. len_m b = 0 \<and> pkt_len_m b = 0"
          using AllocMBufs_fresh a Some by blast
        obtain st2 pos2 sz2 buffers2 bufs2 where
          lp: "WriteStream_loop src len pos1 sz1 buffers1 bufs = (st2, pos2, sz2, buffers2, bufs2)"
          by (cases "WriteStream_loop src len pos1 sz1 buffers1 bufs") auto
        have p1: "unat pos1 \<le> unat len" using pl ul by simp
        have m0: "0 < L - unat pos1" using pl by simp
        have f1: "unat len - unat pos1 \<le> 4064 * length bufs"
          using num_buffers_fit(1) [OF m0] by (simp add: al(1) un ul)
        have f2: "4064 * length bufs < unat len - unat pos1 + 4064"
          using num_buffers_fit(2) [OF m0] by (simp add: al(1) un ul)
        have z1: "unat sz1 + (unat len - unat pos1) < 2 ^ 64"
          using T(5) Lz pl zmax ul by simp
        obtain new where N: "buffers2 = buffers1 @ new" "length new + length bufs2 = length bufs"
          "\<forall>b \<in> set new. 0 < unat (len_m b) \<and> unat (len_m b) \<le> 4064 \<and> pkt_len_m b = 0"
          "unat pos1 \<le> unat pos2" "unat pos2 \<le> unat len"
          "total_len new = unat pos2 - unat pos1"
          "unat sz2 = unat sz1 + (unat pos2 - unat pos1)"
          "concat (map valid_bytes new) = map (in_bytes src) [unat pos1..<unat pos2]"
          "st2 = ZX_OK \<longrightarrow> pos2 = len \<and> bufs2 = []"
          "st2 \<noteq> ZX_OK \<longrightarrow> bufs2 \<noteq> [] \<and>
             st2 = in_fault src (unat pos2) (min 4064 (unat len - unat pos2))"
          using WriteStream_loop_spec [OF fresh p1 f1 f2 z1 lp] by blast
        have res: "c' = c\<lparr>buffers_m := buffers2, size_m := sz2\<rparr>" "written = pos2"
          "pmm' = (if st2 \<noteq> ZX_OK then FreeMBufs bufs2 pmm1 else pmm1)"
          "st = (if st2 \<noteq> ZX_OK then st2 else WriteStream_finish pos2)"
          using w [symmetric] t ok1 ne a Some lp
          by (auto simp: WriteStream_def Let_def len_def [symmetric] num_def [symmetric]
                split: if_splits)
        have sz: "unat sz2 = unat (size_m c) + unat pos2" using N(7,4) T(5) by simp
        have g1: "chain_inv \<lparr>buffers_m = buffers1 @ new,
                     read_cursor_off_m = read_cursor_off_m c, size_m = sz2\<rparr>"
          using T(7)
        proof (rule chain_inv_append)
          show "\<forall>b \<in> set new. 0 < unat (len_m b) \<and> unat (len_m b) \<le> unat kPayloadSize"
            using N(3) by (simp add: kPayloadSize_val)
          show "unat sz2 = unat sz1 + total_len new" using N(6,7) by simp
          show "unat sz2 \<le> unat kSizeMax" using sz N(5) ul Lz zmax by (simp add: kSizeMax_val)
        qed
        have g3: "total_len buffers2 = total_len (buffers_m c) + unat pos2"
          using N(1,6,4) T(3) by simp
        have g4: "concat (map valid_bytes buffers2)
                    = concat (map valid_bytes (buffers_m c)) @ in_prefix src (unat pos2)"
          using N(1,8) T(4) in_prefix_append [OF N(4), of src] by simp
        have g6: "length buffers2 + length pmm' = length (buffers_m c) + length pmm"
        proof -
          have "length pmm1 = length pmm - unat num" using al(3) by simp
          moreover have "st2 = ZX_OK \<Longrightarrow> length new = unat num" using N(2,9) al(1) by simp
          ultimately show ?thesis
            using N(1,2) T(1) al res(3) by (auto simp: FreeMBufs_length)
        qed
        have g8: "st = ZX_OK \<longrightarrow> 0 < unat pos2 \<and> unat pos2 = L"
        proof
          assume "st = ZX_OK"
          then have "st2 = ZX_OK" using res(4) by (auto split: if_splits)
          then have "pos2 = len" using N(9) by simp
          then show "0 < unat pos2 \<and> unat pos2 = L" using ul pl by simp
        qed
        have g9: "st \<noteq> ZX_OK \<longrightarrow> (st = ZX_ERR_SHOULD_WAIT \<and> pos2 = 0) \<or>
                   (\<exists>n. st = in_fault src (unat pos2) n)"
          using res(4) N(10) by (auto simp: WriteStream_finish_def split: if_splits)
        have "?G buffers2 sz2 pmm' pos2 st"
          using g1 sz g3 g4 N(5) ul g6 N(1) T(1) g8 g9 by auto
        then show ?thesis using res(1,2) by blast
      qed
    qed
  qed
  then obtain bufs' sz' where c': "c' = c\<lparr>buffers_m := bufs', size_m := sz'\<rparr>"
    and G: "?G bufs' sz' pmm' written st"
    by blast
  have c'': "c' = \<lparr>buffers_m = bufs', read_cursor_off_m = read_cursor_off_m c, size_m = sz'\<rparr>"
    using c' by (simp add: chain_upd)
  show ?thesis using G unfolding c'' by simp
qed

section \<open>WriteDatagram: the whole operation\<close>

lemma WriteDatagram_fill_spec:
  assumes "\<forall>b \<in> set bufs. len_m b = 0 \<and> pkt_len_m b = 0"
    and "unat pos \<le> unat len"
    and "unat len - unat pos \<le> 4064 * length bufs"
    and "4064 * length bufs < unat len - unat pos + 4064"
    and "WriteDatagram_fill src len pos bufs = (ZX_OK, bufs')"
  shows "length bufs' = length bufs \<and>
      (\<forall>b \<in> set bufs'. 0 < unat (len_m b) \<and> unat (len_m b) \<le> 4064 \<and> pkt_len_m b = 0) \<and>
      total_len bufs' = unat len - unat pos \<and>
      concat (map valid_bytes bufs') = map (in_bytes src) [unat pos..<unat len]"
  using assms
proof (induction bufs arbitrary: pos bufs')
  case Nil
  then show ?case by simp
next
  case (Cons b rest)
  define n where "n = min 4064 (unat len - unat pos)"
  define CL where "CL = min kPayloadSize (len - pos)"
  have b0: "len_m b = 0" "pkt_len_m b = 0" using Cons.prems(1) by simp_all
  have fit: "0 < n" "unat pos + n \<le> unat len" "unat len - (unat pos + n) \<le> 4064 * length rest"
      "4064 * length rest < unat len - (unat pos + n) + 4064"
    using fit_step [OF Cons.prems(2) _ _ n_def] Cons.prems(3,4) by simp_all
  have cl: "unat CL = n"
    using Cons.prems(2)
    by (simp add: CL_def n_def unat_min kPayloadSize_val unat_sub word_le_nat_alt)
  have n4: "n \<le> 4064" by (simp add: n_def)
  have "unat CL < 2 ^ 32" using n4 cl by simp
  then have "unat (ucast CL :: uint32_t) = unat CL" by (rule unat_down)
  then have cd: "unat (ucast CL :: uint32_t) = n" using cl by simp
  have L64: "unat len < 2 ^ 64" using unsigned_less [of len] by simp
  have a1: "unat (pos + CL) = unat pos + n"
    using fit(2) L64 by (simp add: unat_word_ariths cl)
  obtain st d where c: "copy_array_from_user src (unat pos) (data_m b) 0 n = (st, d)"
    by (cases "copy_array_from_user src (unat pos) (data_m b) 0 n") auto
  obtain st' rest' where r: "WriteDatagram_fill src len (pos + CL) rest = (st', rest')"
    by (cases "WriteDatagram_fill src len (pos + CL) rest") auto
  define b' where "b' = b\<lparr>data_m := d, len_m := len_m b + ucast CL\<rparr>"
  have e: "st = ZX_OK \<and> st' = ZX_OK \<and> bufs' = b' # rest'"
    using Cons.prems(5) c r
    by (auto simp: Let_def CL_def [symmetric] cl b'_def split: if_splits)
  have dd: "d = blit (data_m b) 0 n (\<lambda>i. in_bytes src (unat pos + i))"
    using c e by (auto simp: copy_array_from_user_def Let_def)
  have bl: "unat (len_m b') = n" by (simp add: b'_def b0 cd)
  have vb: "valid_bytes b' = map (in_bytes src) [unat pos..<unat pos + n]"
  proof -
    have "valid_bytes b' = valid_bytes b @ map (\<lambda>i. in_bytes src (unat pos + i)) [0..<n]"
      by (rule valid_bytes_blit_append) (simp_all add: cd b0 b'_def dd)
    then show ?thesis by (simp add: valid_bytes_fresh b0 in_range_map)
  qed
  have pre: "\<forall>b \<in> set rest. len_m b = 0 \<and> pkt_len_m b = 0" using Cons.prems(1) by simp
  have ih: "length rest' = length rest \<and>
      (\<forall>b \<in> set rest'. 0 < unat (len_m b) \<and> unat (len_m b) \<le> 4064 \<and> pkt_len_m b = 0) \<and>
      total_len rest' = unat len - unat (pos + CL) \<and>
      concat (map valid_bytes rest') = map (in_bytes src) [unat (pos + CL)..<unat len]"
    using Cons.IH [OF pre, of "pos + CL" rest'] r e fit a1 by simp
  have cat: "[unat pos..<unat len] = [unat pos..<unat pos + n] @ [unat pos + n..<unat len]"
    using fit(2) upt_add_eq_append [of "unat pos" "unat pos + n" "unat len - (unat pos + n)"]
    by simp
  have "pkt_len_m b' = 0" by (simp add: b'_def b0)
  then show ?case using e ih bl vb fit(1,2) n4 a1 cat by auto
qed

lemma WriteDatagram_spec:
  assumes inv: "chain_inv c"
    and w: "WriteDatagram src len c pmm = Some (c', pmm', written, st)"
  shows "chain_inv c' \<and> read_cursor_off_m c' = read_cursor_off_m c \<and>
     (st \<noteq> ZX_OK \<longrightarrow> c' = c \<and> written = 0 \<and> length pmm' = length pmm) \<and>
     (st = ZX_OK \<longrightarrow> written = len \<and> len \<noteq> 0 \<and>
        unat (size_m c') = unat (size_m c) + unat len \<and>
        (\<exists>h body. buffers_m c' = buffers_m c @ h # body \<and>
           pkt_len_m h = ucast len \<and> unat (pkt_len_m h) = unat len \<and>
           (\<forall>b \<in> set body. pkt_len_m b = 0) \<and>
           total_len (h # body) = unat len \<and>
           concat (map valid_bytes (h # body)) = in_prefix src (unat len) \<and>
           length pmm' + length (h # body) = length pmm))"
proof (cases "len = 0 \<or> len > kSizeMax \<or> len + size_m c > kSizeMax")
  case True
  then show ?thesis using w inv by (auto simp: WriteDatagram_def split: if_splits)
next
  case False
  have zmax: "unat (size_m c) \<le> 520192" using inv by (simp add: chain_inv_def kSizeMax_val)
  have l0: "0 < unat len" using False by (simp add: unat_gt_0)
  have lmax: "unat len \<le> 520192"
    using False by (simp add: word_less_nat_alt kSizeMax_val)
  have sum: "unat (len + size_m c) = unat len + unat (size_m c)"
    using zmax lmax by (simp add: unat_word_ariths)
  have cap: "unat len + unat (size_m c) \<le> 520192"
    using False sum by (simp add: word_less_nat_alt kSizeMax_val)
  have sum': "unat (size_m c + len) = unat (size_m c) + unat len"
    using sum by (simp add: add.commute)
  define num where "num = NumBuffersForPayload len"
  have un: "unat num = 1 + (unat len - 1) div 4064"
  proof -
    have "unat (len - 1) = unat len - 1" using l0 by (simp add: unat_sub word_le_nat_alt)
    then show ?thesis by (simp add: num_def unat_NumBuffersForPayload)
  qed
  obtain r pmm1 where a: "AllocMBufs num pmm = (r, pmm1)"
    by (cases "AllocMBufs num pmm") auto
  show ?thesis
  proof (cases r)
    case None
    then have "pmm1 = pmm" using AllocMBufs_None a by blast
    then show ?thesis using w inv False a None
      by (auto simp: WriteDatagram_def num_def [symmetric])
  next
    case (Some bufs)
    have al: "length bufs = unat num" "unat num \<le> length pmm" "pmm1 = drop (unat num) pmm"
      using AllocMBufs_Some a Some by blast+
    have fresh: "\<forall>b \<in> set bufs. len_m b = 0 \<and> pkt_len_m b = 0"
      using AllocMBufs_fresh a Some by blast
    obtain st2 bufs' where f: "WriteDatagram_fill src len 0 bufs = (st2, bufs')"
      by (cases "WriteDatagram_fill src len 0 bufs") auto
    show ?thesis
    proof (cases "st2 = ZX_OK")
      case bad: False
      have "length bufs' = length bufs" using WriteDatagram_fill_length [OF f] .
      then have "length (FreeMBufs bufs' pmm1) = length pmm"
        using al by (simp add: FreeMBufs_length)
      then show ?thesis using w inv False a Some f bad
        by (auto simp: WriteDatagram_def num_def [symmetric])
    next
      case True
      have p0: "unat (0 :: size_t) \<le> unat len" by simp
      have f1: "unat len - unat (0 :: size_t) \<le> 4064 * length bufs"
        using num_buffers_fit(1) [OF l0] by (simp add: al(1) un)
      have f2: "4064 * length bufs < unat len - unat (0 :: size_t) + 4064"
        using num_buffers_fit(2) [OF l0] by (simp add: al(1) un)
      have F: "length bufs' = length bufs"
        "\<forall>b \<in> set bufs'. 0 < unat (len_m b) \<and> unat (len_m b) \<le> 4064 \<and> pkt_len_m b = 0"
        "total_len bufs' = unat len"
        "concat (map valid_bytes bufs') = in_prefix src (unat len)"
        using WriteDatagram_fill_spec [OF fresh p0 f1 f2 f [unfolded True]]
        by (simp_all add: in_prefix_def)
      have "bufs' \<noteq> []" using F(1) al(1) un by auto
      then obtain b bs where bb: "bufs' = b # bs" by (cases bufs') auto
      define h where "h = b\<lparr>pkt_len_m := ucast len\<rparr>"
      have res: "c' = c\<lparr>buffers_m := buffers_m c @ (h # bs), size_m := size_m c + len\<rparr>"
        "pmm' = pmm1" "written = len" "st = ZX_OK"
        using w [symmetric] False a Some f True bb
        by (auto simp: WriteDatagram_def num_def [symmetric] h_def)
      have hl: "len_m h = len_m b" "valid_bytes h = valid_bytes b"
        by (simp_all add: h_def valid_bytes_def)
      have up: "unat (ucast len :: uint32_t) = unat len" using lmax by (simp add: unat_down)
      have "chain_inv \<lparr>buffers_m = buffers_m c @ (h # bs),
               read_cursor_off_m = read_cursor_off_m c, size_m = size_m c + len\<rparr>"
      proof (rule chain_inv_append)
        show "chain_inv \<lparr>buffers_m = buffers_m c, read_cursor_off_m = read_cursor_off_m c,
                size_m = size_m c\<rparr>"
          using inv by simp
        show "\<forall>x \<in> set (h # bs). 0 < unat (len_m x) \<and> unat (len_m x) \<le> unat kPayloadSize"
          using F(2) bb hl by (simp add: kPayloadSize_val)
        show "unat (size_m c + len) = unat (size_m c) + total_len (h # bs)"
          using F(3) bb hl sum' by simp
        show "unat (size_m c + len) \<le> unat kSizeMax"
          using sum' cap by (simp add: kSizeMax_val)
      qed
      then have g1: "chain_inv c'" by (simp add: res(1) chain_upd)
      have g2: "buffers_m c' = buffers_m c @ h # bs" "read_cursor_off_m c' = read_cursor_off_m c"
        "unat (size_m c') = unat (size_m c) + unat len"
        using sum' by (simp_all add: res(1))
      have g3: "pkt_len_m h = ucast len" "unat (pkt_len_m h) = unat len"
        "\<forall>b \<in> set bs. pkt_len_m b = 0"
        using F(2) bb up by (simp_all add: h_def)
      have g4: "total_len (h # bs) = unat len"
        "concat (map valid_bytes (h # bs)) = in_prefix src (unat len)"
        using F(3,4) bb hl by simp_all
      have g5: "length pmm' + length (h # bs) = length pmm"
        using al F(1) bb res(2) by simp
      have ex: "\<exists>h body. buffers_m c' = buffers_m c @ h # body \<and>
           pkt_len_m h = ucast len \<and> unat (pkt_len_m h) = unat len \<and>
           (\<forall>b \<in> set body. pkt_len_m b = 0) \<and>
           total_len (h # body) = unat len \<and>
           concat (map valid_bytes (h # body)) = in_prefix src (unat len) \<and>
           length pmm' + length (h # body) = length pmm"
        using g2(1) g3 g4 g5 by blast
      have "len \<noteq> 0" using l0 by auto
      then show ?thesis using g1 g2(2,3) ex res(3,4) by simp
    qed
  qed
qed

section \<open>Sequences of operations keep the invariant\<close>

lemma chain_inv_new: "chain_inv MBufChain_new"
  by (simp add: chain_inv_def MBufChain_new_def)

lemma apply_operation_inv:
  assumes "chain_inv c"
  shows "\<exists>c' pmm'. apply_operation op (c, pmm) = Some (c', pmm') \<and> chain_inv c'"
proof (cases op)
  case (OpWriteStream src len)
  obtain c' pmm' written st where w: "WriteStream src len c pmm = (c', pmm', written, st)"
    by (cases "WriteStream src len c pmm") auto
  then have "chain_inv c'" using WriteStream_spec [OF assms w refl] by simp
  then show ?thesis using OpWriteStream w by simp
next
  case (OpWriteDatagram src len)
  obtain c' pmm' written st where w: "WriteDatagram src len c pmm = Some (c', pmm', written, st)"
    using WriteDatagram_returns [of src len c pmm] by blast
  then have "chain_inv c'" using WriteDatagram_spec [OF assms w] by simp
  then show ?thesis using OpWriteDatagram w by simp
next
  case (OpRead dst len dg)
  then show ?thesis using Read_inv [OF assms, of pmm dst len dg] by auto
next
  case (OpPeek dst len dg)
  then show ?thesis using Peek_returns_same [of c pmm dst len dg] assms by auto
qed

lemma run_inv:
  "chain_inv c \<Longrightarrow> \<exists>c' pmm'. run ops (c, pmm) = Some (c', pmm') \<and> chain_inv c'"
proof (induction ops arbitrary: c pmm)
  case Nil
  then show ?case by simp
next
  case (Cons op ops)
  obtain c1 pmm1 where s: "apply_operation op (c, pmm) = Some (c1, pmm1)" "chain_inv c1"
    using apply_operation_inv [OF Cons.prems] by blast
  then show ?case using Cons.IH [OF s(2), of pmm1] by simp
qed

text \<open>
  C6. After every sequence of public operations from the empty chain (so after each
  operation of a sequence, whatever statuses the operations returned) the run has
  not failed an assertion, the read cursor lies inside the head cell (it is 0 on an
  empty chain), and \<open>size_\<close> is the sum of the valid lengths of all cells minus the read
  cursor.
\<close>

theorem size_is_valid_bytes_minus_cursor:
  "\<exists>c pmm'. run (take k ops) (MBufChain_new, pmm) = Some (c, pmm') \<and>
     unat (read_cursor_off_m c) \<le> total_len (buffers_m c) \<and>
     unat (size_m c) = total_len (buffers_m c) - unat (read_cursor_off_m c) \<and>
     (case buffers_m c of
        [] \<Rightarrow> read_cursor_off_m c = 0
      | b # _ \<Rightarrow> unat (read_cursor_off_m c) < unat (len_m b))"
proof -
  obtain c pmm' where r: "run (take k ops) (MBufChain_new, pmm) = Some (c, pmm')" "chain_inv c"
    using run_inv [OF chain_inv_new] by blast
  have "unat (size_m c) + unat (read_cursor_off_m c) = total_len (buffers_m c)"
    using r(2) by (simp add: chain_inv_def)
  moreover have "case buffers_m c of
        [] \<Rightarrow> read_cursor_off_m c = 0
      | b # _ \<Rightarrow> unat (read_cursor_off_m c) < unat (len_m b)"
    using r(2) by (simp add: chain_inv_def)
  ultimately show ?thesis using r(1) by auto
qed


theorem size_is_valid_bytes_minus_cursor_witness:
  "\<exists>c pmm'. run (take 5 ex_ops) (MBufChain_new, [ex_page 1, ex_page 2]) = Some (c, pmm') \<and>
     size_m c = 5 \<and> total_len (buffers_m c) = 5 \<and> read_cursor_off_m c = 0 \<and>
     unat (size_m c) = total_len (buffers_m c) - unat (read_cursor_off_m c)"
  using size_is_valid_bytes_minus_cursor [of 5 ex_ops "[ex_page 1, ex_page 2]"]
  by (simp add: ex_ops_def model_defs ex_defs)

section \<open>WriteStream: a failing user copy\<close>


lemma write_buffer_call_val:
  assumes "unat (len_m buf) \<le> 4064" and "unat pos \<le> unat len"
  shows "write_buffer_call len pos buf
           = (unat pos, min (4064 - unat (len_m buf)) (unat len - unat pos))"
proof -
  have "unat (rem buf) = 4064 - unat (len_m buf)"
    using assms(1) by (simp add: rem_def kPayloadSize_val unat_sub word_le_nat_alt unat_up)
  then show ?thesis
    using assms(2) by (simp add: write_buffer_call_def unat_min unat_sub word_le_nat_alt)
qed

text \<open>
  The calls of the loop over new buffers: successful calls whose counts add up to the
  advance of \<open>pos\<close>, followed by the failing call, at the final \<open>pos\<close>, when the loop
  stops with an error.
\<close>

lemma WriteStream_loop_calls_spec:
  assumes "\<forall>b \<in> set bufs. len_m b = 0 \<and> pkt_len_m b = 0"
    and "unat pos \<le> unat len"
    and "unat len - unat pos \<le> 4064 * length bufs"
    and "4064 * length bufs < unat len - unat pos + 4064"
    and "unat sz + (unat len - unat pos) < 2 ^ 64"
    and "WriteStream_loop src len pos sz buffers bufs = (st, pos2, sz2, buffers2, bufs2)"
  shows "\<exists>good bad.
      WriteStream_loop_calls src len pos sz buffers bufs = good @ bad \<and>
      (\<forall>x \<in> set good. in_fault src (fst x) (snd x) = ZX_OK) \<and>
      unat pos + sum_list (map snd good) = unat pos2 \<and>
      (st = ZX_OK \<longrightarrow> bad = []) \<and>
      (st \<noteq> ZX_OK \<longrightarrow> (\<exists>m. bad = [(unat pos2, m)] \<and> in_fault src (unat pos2) m = st))"
  using assms
proof (induction bufs arbitrary: pos sz buffers)
  case Nil
  then show ?case by (intro exI [of _ "[]"]) auto
next
  case (Cons b rest)
  define n where "n = min (4064 - unat (len_m b)) (unat len - unat pos)"
  have b0: "len_m b = 0" "pkt_len_m b = 0" using Cons.prems(1) by simp_all
  have n': "n = min 4064 (unat len - unat pos)" by (simp add: n_def b0)
  obtain st1 b' pos' sz' where w: "write_buffer src len pos sz b = (st1, b', pos', sz')"
    by (cases "write_buffer src len pos sz b") auto
  have l0: "unat (len_m b) \<le> 4064" by (simp add: b0)
  note wb = write_buffer_step [OF l0 Cons.prems(2) Cons.prems(5) n_def w]
  have call: "write_buffer_call len pos b = (unat pos, n)"
    using write_buffer_call_val [OF l0 Cons.prems(2)] by (simp add: n_def)
  have fit: "0 < n" "unat pos + n \<le> unat len" "unat len - (unat pos + n) \<le> 4064 * label"
      "4064 * label < unat len - (unat pos + n) + 4064" if "label = length rest" for label
    using fit_step [OF Cons.prems(2) _ _ n'] Cons.prems(3,4) that by simp_all
  show ?case
  proof (cases "st1 = ZX_OK")
    case False
    then have r: "st = st1" "pos2 = pos'"
      using Cons.prems(6) w by simp_all
    have "pos' = pos" using wb(4) False by simp
    moreover have "WriteStream_loop_calls src len pos sz buffers (b # rest) = [(unat pos, n)]"
      using w False call by simp
    ultimately show ?thesis
      using r wb(1) False
      by (intro exI [of _ "[]"] exI [of _ "[(unat pos, n)]"]) auto
  next
    case True
    have rec: "WriteStream_loop src len pos' sz' (buffers @ [b']) rest
               = (st, pos2, sz2, buffers2, bufs2)"
      using Cons.prems(6) w True by simp
    have ok: "unat pos' = unat pos + n" "unat sz' = unat sz + n"
      using wb(5) True by simp_all
    have pre: "\<forall>b \<in> set rest. len_m b = 0 \<and> pkt_len_m b = 0" using Cons.prems(1) by simp
    have z': "unat sz' + (unat len - unat pos') < 2 ^ 64"
      using Cons.prems(5) ok(1,2) fit(2) by simp
    obtain good bad where ih:
      "WriteStream_loop_calls src len pos' sz' (buffers @ [b']) rest = good @ bad"
      "\<forall>x \<in> set good. in_fault src (fst x) (snd x) = ZX_OK"
      "unat pos' + sum_list (map snd good) = unat pos2"
      "st = ZX_OK \<longrightarrow> bad = []"
      "st \<noteq> ZX_OK \<longrightarrow> (\<exists>m. bad = [(unat pos2, m)] \<and> in_fault src (unat pos2) m = st)"
      using Cons.IH [OF pre _ _ _ z' rec] fit [OF refl] ok(1) by auto
    have c: "WriteStream_loop_calls src len pos sz buffers (b # rest)
               = ((unat pos, n) # good) @ bad"
      using w True call ih(1) by simp
    have g: "\<forall>x \<in> set ((unat pos, n) # good). in_fault src (fst x) (snd x) = ZX_OK"
      using ih(2) wb(1) True by simp
    have s: "unat pos + sum_list (map snd ((unat pos, n) # good)) = unat pos2"
      using ih(3) ok(1) by simp
    show ?thesis using c g s ih(4,5) by blast
  qed
qed


text \<open>
  The calls of the tail step: none when the tail cell is missing or full, else one call
  at offset 0.
\<close>

lemma WriteStream_tail_calls_spec:
  assumes inv: "chain_inv c" and L: "unat len \<le> 520192 - unat (size_m c)"
    and t: "WriteStream_tail src len c = (st1, buffers1, pos1, sz1)"
    and tc: "tail_calls =
               (if buffers_m c \<noteq> [] \<and> rem (last (buffers_m c)) > 0
                then [write_buffer_call len 0 (last (buffers_m c))] else [])"
  shows "\<exists>good bad.
      tail_calls = good @ bad \<and>
      (\<forall>x \<in> set good. in_fault src (fst x) (snd x) = ZX_OK) \<and>
      sum_list (map snd good) = unat pos1 \<and>
      (st1 = ZX_OK \<longrightarrow> bad = []) \<and>
      (st1 \<noteq> ZX_OK \<longrightarrow> (\<exists>m. bad = [(unat pos1, m)] \<and> in_fault src (unat pos1) m = st1))"
proof (cases "buffers_m c \<noteq> [] \<and> rem (last (buffers_m c)) > 0")
  case False
  then have "st1 = ZX_OK" "pos1 = 0" "tail_calls = []"
    using t tc by (auto simp: WriteStream_tail_def)
  then show ?thesis by (intro exI [of _ "[]"]) simp
next
  case True
  define b where "b = last (buffers_m c)"
  have "b \<in> set (buffers_m c)" using True by (simp add: b_def)
  then have l: "unat (len_m b) \<le> 4064"
    using inv by (simp add: chain_inv_def kPayloadSize_val)
  have zmax: "unat (size_m c) \<le> 520192" using inv by (simp add: chain_inv_def kSizeMax_val)
  have z: "unat (size_m c) + (unat len - unat (0 :: size_t)) < 2 ^ 64"
    using L zmax by simp
  have p0: "unat (0 :: size_t) \<le> unat len" by simp
  obtain b' where w: "write_buffer src len 0 (size_m c) b = (st1, b', pos1, sz1)"
    using t True by (auto simp: WriteStream_tail_def b_def split: prod.splits)
  define n where "n = min (4064 - unat (len_m b)) (unat len - unat (0 :: size_t))"
  note wb = write_buffer_step [OF l p0 z n_def w]
  have call: "tail_calls = [(0, n)]"
    using write_buffer_call_val [OF l p0] True tc by (simp add: n_def b_def)
  show ?thesis
  proof (cases "st1 = ZX_OK")
    case False
    then have "pos1 = 0" using wb(4) by simp
    then show ?thesis
      using call wb(1) False
      by (intro exI [of _ "[]"] exI [of _ "[(0, n)]"]) auto
  next
    case ok: True
    then have "unat pos1 = n" using wb(5) by simp
    then show ?thesis
      using call wb(1) ok
      by (intro exI [of _ "[(0, n)]"] exI [of _ "[]"]) auto
  qed
qed

lemma WriteStream_calls_spec:
  assumes inv: "chain_inv c" and w: "WriteStream src len0 c pmm = (c', pmm', written, st)"
  shows "\<exists>good bad.
      WriteStream_calls src len0 c pmm = good @ bad \<and>
      (\<forall>x \<in> set good. in_fault src (fst x) (snd x) = ZX_OK) \<and>
      sum_list (map snd good) = unat written \<and>
      (bad = [] \<and> (st = ZX_OK \<or> st = ZX_ERR_SHOULD_WAIT \<and> written = 0) \<or>
       (\<exists>m. bad = [(unat written, m)] \<and> in_fault src (unat written) m = st \<and> st \<noteq> ZX_OK))"
proof -
  define len where "len = min (kSizeMax - size_m c) len0"
  define L where "L = min (520192 - unat (size_m c)) (unat len0)"
  have zmax: "unat (size_m c) \<le> 520192" using inv by (simp add: chain_inv_def kSizeMax_val)
  have ul: "unat len = L"
    using zmax by (simp add: len_def unat_min unat_sub word_le_nat_alt kSizeMax_val L_def)
  have Lz: "unat len \<le> 520192 - unat (size_m c)" by (simp add: ul L_def)
  define tail_calls where "tail_calls =
               (if buffers_m c \<noteq> [] \<and> rem (last (buffers_m c)) > 0
                then [write_buffer_call len 0 (last (buffers_m c))] else [])"
  obtain st1 buffers1 pos1 sz1 where t: "WriteStream_tail src len c = (st1, buffers1, pos1, sz1)"
    by (cases "WriteStream_tail src len c") auto
  note T = WriteStream_tail_spec [OF inv Lz t]
  obtain tg tb where TC: "tail_calls = tg @ tb"
    "\<forall>x \<in> set tg. in_fault src (fst x) (snd x) = ZX_OK"
    "sum_list (map snd tg) = unat pos1"
    "st1 = ZX_OK \<longrightarrow> tb = []"
    "st1 \<noteq> ZX_OK \<longrightarrow> (\<exists>m. tb = [(unat pos1, m)] \<and> in_fault src (unat pos1) m = st1)"
    using WriteStream_tail_calls_spec [OF inv Lz t tail_calls_def] by blast
  let ?G = "\<lambda>calls written st. \<exists>good bad.
      calls = good @ bad \<and>
      (\<forall>x \<in> set good. in_fault src (fst x) (snd x) = ZX_OK) \<and>
      sum_list (map snd good) = unat written \<and>
      (bad = [] \<and> (st = ZX_OK \<or> st = ZX_ERR_SHOULD_WAIT \<and> written = 0) \<or>
       (\<exists>m. bad = [(unat written, m)] \<and> in_fault src (unat written) m = st \<and> st \<noteq> ZX_OK))"
  have tailG: "?G tail_calls pos1 st'"
    if h: "st1 \<noteq> ZX_OK \<longrightarrow> st' = st1" "st1 = ZX_OK \<longrightarrow> st' = WriteStream_finish pos1"
    for st'
  proof (cases "st1 = ZX_OK")
    case True
    then have "tail_calls = tg @ []" "st' = ZX_OK \<or> st' = ZX_ERR_SHOULD_WAIT \<and> pos1 = 0"
      using TC h by (auto simp: WriteStream_finish_def)
    then show ?thesis using TC(2,3) by blast
  next
    case False
    then obtain m where "tail_calls = tg @ [(unat pos1, m)]" "in_fault src (unat pos1) m = st'"
      "st' \<noteq> ZX_OK"
      using TC h by auto
    then show ?thesis using TC(2,3) by blast
  qed
  have "\<exists>calls. WriteStream_calls src len0 c pmm = calls \<and> ?G calls written st"
  proof (cases "st1 = ZX_OK")
    case False
    then have "written = pos1" "st = st1"
      using w t by (auto simp: WriteStream_def Let_def len_def [symmetric])
    moreover have "WriteStream_calls src len0 c pmm = tail_calls"
      using t False
      by (simp add: WriteStream_calls_def Let_def len_def [symmetric] tail_calls_def)
    ultimately show ?thesis using tailG [of st1] False by simp
  next
    case ok1: True
    show ?thesis
    proof (cases "pos1 = len")
      case True
      then have "written = pos1" "st = WriteStream_finish pos1"
        using w [symmetric] t ok1 by (auto simp: WriteStream_def Let_def len_def [symmetric])
      moreover have "WriteStream_calls src len0 c pmm = tail_calls"
        using t ok1 True
        by (simp add: WriteStream_calls_def Let_def len_def [symmetric] tail_calls_def)
      ultimately show ?thesis using tailG [of st] ok1 by simp
    next
      case ne: False
      have pl: "unat pos1 < L" using ne T(6) ul by (metis le_neq_implies_less word_unat_eq_iff)
      have d: "unat (len - pos1) = L - unat pos1"
        using pl ul by (simp add: unat_sub word_le_nat_alt)
      define num where "num = NumBuffersForPayload (len - pos1)"
      have un: "unat num = 1 + (L - unat pos1 - 1) div 4064"
      proof -
        have "unat (len - pos1 - 1) = L - unat pos1 - 1"
          using pl d by (simp add: unat_sub word_le_nat_alt)
        then show ?thesis by (simp add: num_def unat_NumBuffersForPayload)
      qed
      obtain r pmm1 where a: "AllocMBufs num pmm = (r, pmm1)"
        by (cases "AllocMBufs num pmm") auto
      show ?thesis
      proof (cases r)
        case None
        then have "written = pos1" "st = WriteStream_finish pos1"
          using w [symmetric] t ok1 ne a
          by (auto simp: WriteStream_def Let_def len_def [symmetric] num_def [symmetric])
        moreover have "WriteStream_calls src len0 c pmm = tail_calls"
          using t ok1 ne a None
          by (simp add: WriteStream_calls_def Let_def len_def [symmetric] tail_calls_def
                num_def [symmetric])
        ultimately show ?thesis using tailG [of st] ok1 by simp
      next
        case (Some bufs)
        have al: "length bufs = unat num"
          using AllocMBufs_Some a Some by blast
        have fresh: "\<forall>b \<in> set bufs. len_m b = 0 \<and> pkt_len_m b = 0"
          using AllocMBufs_fresh a Some by blast
        obtain st2 pos2 sz2 buffers2 bufs2 where
          lp: "WriteStream_loop src len pos1 sz1 buffers1 bufs = (st2, pos2, sz2, buffers2, bufs2)"
          by (cases "WriteStream_loop src len pos1 sz1 buffers1 bufs") auto
        have p1: "unat pos1 \<le> unat len" using pl ul by simp
        have m0: "0 < L - unat pos1" using pl by simp
        have f1: "unat len - unat pos1 \<le> 4064 * length bufs"
          using num_buffers_fit(1) [OF m0] by (simp add: al un ul)
        have f2: "4064 * length bufs < unat len - unat pos1 + 4064"
          using num_buffers_fit(2) [OF m0] by (simp add: al un ul)
        have z1: "unat sz1 + (unat len - unat pos1) < 2 ^ 64"
          using T(5) Lz pl zmax ul by simp
        obtain lg lb where LC:
          "WriteStream_loop_calls src len pos1 sz1 buffers1 bufs = lg @ lb"
          "\<forall>x \<in> set lg. in_fault src (fst x) (snd x) = ZX_OK"
          "unat pos1 + sum_list (map snd lg) = unat pos2"
          "st2 = ZX_OK \<longrightarrow> lb = []"
          "st2 \<noteq> ZX_OK \<longrightarrow> (\<exists>m. lb = [(unat pos2, m)] \<and> in_fault src (unat pos2) m = st2)"
          using WriteStream_loop_calls_spec [OF fresh p1 f1 f2 z1 lp] by blast
        have res: "written = pos2" "st2 \<noteq> ZX_OK \<longrightarrow> st = st2"
          "st2 = ZX_OK \<longrightarrow> st = WriteStream_finish pos2"
          using w [symmetric] t ok1 ne a Some lp
          by (auto simp: WriteStream_def Let_def len_def [symmetric] num_def [symmetric]
                split: if_splits)
        have tb: "tb = []" using TC(4) ok1 by simp
        have calls: "WriteStream_calls src len0 c pmm = (tg @ lg) @ lb"
          using t ok1 ne a Some LC(1) TC(1) tb
          by (simp add: WriteStream_calls_def Let_def len_def [symmetric]
                tail_calls_def [symmetric] num_def [symmetric])
        have g: "\<forall>x \<in> set (tg @ lg). in_fault src (fst x) (snd x) = ZX_OK"
          using TC(2) LC(2) by auto
        have s: "sum_list (map snd (tg @ lg)) = unat written"
          using TC(3) LC(3) res(1) by simp
        have b: "lb = [] \<and> (st = ZX_OK \<or> st = ZX_ERR_SHOULD_WAIT \<and> written = 0) \<or>
          (\<exists>m. lb = [(unat written, m)] \<and> in_fault src (unat written) m = st \<and> st \<noteq> ZX_OK)"
          using LC(4,5) res by (cases "st2 = ZX_OK") (auto simp: WriteStream_finish_def)
        show ?thesis using calls g s b by blast
      qed
    qed
  qed
  then show ?thesis by simp
qed


lemma write_buffer_status:
  "fst (write_buffer src len pos sz buf)
     = in_fault src (fst (write_buffer_call len pos buf)) (snd (write_buffer_call len pos buf))"
  by (simp add: write_buffer_def write_buffer_call_def copy_array_from_user_def Let_def)

lemma WriteStream_error_is_copy_status:
  assumes "chain_inv c" and "WriteStream src len c pmm = (c', pmm', written, st)"
    and "st \<noteq> ZX_OK" and "st = ZX_ERR_SHOULD_WAIT \<longrightarrow> written \<noteq> 0"
  shows "\<exists>n. st = in_fault src (unat written) n"
  using WriteStream_spec [OF assms(1,2) refl] assms(3,4) by blast

lemma WriteStream_no_failed_copy:
  assumes "chain_inv c" and "WriteStream src len c pmm = (c', pmm', written, st)"
    and "\<forall>x \<in> set (WriteStream_calls src len c pmm). in_fault src (fst x) (snd x) = ZX_OK"
  shows "st = ZX_OK \<or> st = ZX_ERR_SHOULD_WAIT \<and> written = 0"
proof -
  obtain good bad where C: "WriteStream_calls src len c pmm = good @ bad"
    "bad = [] \<and> (st = ZX_OK \<or> st = ZX_ERR_SHOULD_WAIT \<and> written = 0) \<or>
       (\<exists>m. bad = [(unat written, m)] \<and> in_fault src (unat written) m = st \<and> st \<noteq> ZX_OK)"
    using WriteStream_calls_spec [OF assms(1,2)] by blast
  show ?thesis using C assms(3) by auto
qed



section \<open>WriteStream: written and status\<close>




section \<open>The capacity bound\<close>




section \<open>Datagram framing: writes\<close>

lemma takeWhile_append_stop:
  "\<not> P y \<Longrightarrow> takeWhile P (xs @ y # ys) = takeWhile P xs"
  by (induction xs) auto

lemma dropWhile_append_stop:
  "\<not> P y \<Longrightarrow> dropWhile P (xs @ y # ys) = dropWhile P xs @ y # ys"
  by (induction xs) auto

lemma datagrams_append:
  assumes "\<not> is_body h" and "\<forall>b \<in> set body. is_body b"
  shows "datagrams (xs @ h # body) = datagrams xs @ [concat (map valid_bytes (h # body))]"
proof (induction xs rule: datagrams.induct)
  case 1
  have tw: "takeWhile is_body body = body" "dropWhile is_body body = []"
    using assms(2) by simp_all
  show ?case by (simp add: tw)
next
  case (2 b bs)
  then show ?case
    using assms(1) by (simp add: takeWhile_append_stop dropWhile_append_stop)
qed

lemma datagram_cells_append:
  assumes "\<not> is_body h" and "\<forall>b \<in> set body. is_body b"
    and "unat (pkt_len_m h) = total_len (h # body)"
  shows "datagram_cells xs \<Longrightarrow> datagram_cells (xs @ h # body)"
proof (induction xs rule: datagram_cells.induct)
  case 1
  have tw: "takeWhile is_body body = body" "dropWhile is_body body = []"
    using assms(2) by simp_all
  show ?case using assms(1,3) by (simp add: tw) (simp add: is_body_def)
next
  case (2 b bs)
  then show ?case
    using assms(1) by (simp add: takeWhile_append_stop dropWhile_append_stop)
qed

lemma WriteDatagram_appends_datagram:
  assumes inv: "chain_inv c" and dc: "datagram_cells (buffers_m c)"
    and w: "WriteDatagram src n c pmm = Some (c1, pmm1, written, ZX_OK)"
  shows "chain_inv c1 \<and> datagram_cells (buffers_m c1) \<and>
         read_cursor_off_m c1 = read_cursor_off_m c \<and>
         datagrams (buffers_m c1) = datagrams (buffers_m c) @ [in_prefix src (unat n)]"
proof -
  note S = WriteDatagram_spec [OF inv w]
  obtain h body where hb: "buffers_m c1 = buffers_m c @ h # body"
    "pkt_len_m h = ucast n" "unat (pkt_len_m h) = unat n"
    "\<forall>b \<in> set body. pkt_len_m b = 0" "total_len (h # body) = unat n"
    "concat (map valid_bytes (h # body)) = in_prefix src (unat n)"
    using S by auto
  have n0: "n \<noteq> 0" using S by simp
  then have nb: "\<not> is_body h" using hb(3) by (auto simp: is_body_def unat_eq_0)
  have bd: "\<forall>b \<in> set body. is_body b" using hb(4) by (simp add: is_body_def)
  have "datagram_cells (buffers_m c1)"
    using datagram_cells_append [OF nb bd _ dc] hb(1,3,5) by simp
  moreover have "datagrams (buffers_m c1) = datagrams (buffers_m c) @ [in_prefix src (unat n)]"
    using datagrams_append [OF nb bd] hb(1,6) by simp
  ultimately show ?thesis using S by simp
qed

section \<open>Datagram framing: the copy loop\<close>

lemma out_prefix_copy_keep:
  "out_prefix (snd (copy_array_to_user dst p src r n)) p = out_prefix dst p"
  by (simp add: out_prefix_def copy_array_to_user_def Let_def blit_def)

lemma out_prefix_copy_ok:
  assumes "out_fault dst p n = ZX_OK"
  shows "out_prefix (snd (copy_array_to_user dst p src r n)) (p + n)
           = out_prefix dst p @ map (\<lambda>i. src (r + i)) [0..<n]"
proof (rule nth_equalityI)
  show "length (out_prefix (snd (copy_array_to_user dst p src r n)) (p + n))
          = length (out_prefix dst p @ map (\<lambda>i. src (r + i)) [0..<n])"
    by (simp add: out_prefix_def)
next
  fix i assume "i < length (out_prefix (snd (copy_array_to_user dst p src r n)) (p + n))"
  then have i: "i < p + n" by (simp add: out_prefix_def)
  show "out_prefix (snd (copy_array_to_user dst p src r n)) (p + n) ! i
          = (out_prefix dst p @ map (\<lambda>i. src (r + i)) [0..<n]) ! i"
  proof (cases "i < p")
    case True
    then show ?thesis using i assms
      by (simp add: out_prefix_def copy_array_to_user_def Let_def blit_def nth_append)
  next
    case False
    then have "i - p < n" "r + i - p = r + (i - p)" using i by simp_all
    then show ?thesis using i assms False
      by (simp add: out_prefix_def copy_array_to_user_def Let_def blit_def nth_append)
  qed
qed

lemma valid_bytes_take:
  "n \<le> unat (len_m y) \<Longrightarrow> map (\<lambda>i. data_m y (0 + i)) [0..<n] = take n (valid_bytes y)"
  by (simp add: valid_bytes_def take_map)

lemma total_len_take_drop: "total_len (take k ys) + total_len (drop k ys) = total_len ys"
  by (metis append_take_drop_id total_len_append)

text \<open>
  The copy loop when consuming a datagram. \<open>ys\<close> are the cells at the head that hold at
  least the bytes still asked for; the loop unlinks \<open>k\<close> of them.
\<close>

lemma ReadHelper_loop_datagram:
  assumes "chain_inv (rh_chain s)" and "rh_iter s = 0" and "rh_read_off s = 0"
    and "rh_buffers s = ys @ rest" and "unat (rh_pos s) \<le> unat len"
    and "unat len - unat (rh_pos s) \<le> total_len ys"
    and "s' = ReadHelper_loop False True len s"
  shows "\<exists>k \<le> length ys.
      rh_buffers s' = drop k ys @ rest \<and>
      rh_free_list s' = rev (take k ys) @ rh_free_list s \<and>
      (ReadHelper_cond len s \<longrightarrow> 0 < k) \<and>
      unat (rh_size s') = unat (rh_size s) - total_len (take k ys) \<and>
      rh_read_off s' = 0 \<and> rh_iter s' = 0 \<and>
      unat (rh_pos s) \<le> unat (rh_pos s') \<and> unat (rh_pos s') \<le> unat len \<and>
      out_prefix (rh_dst s') (unat (rh_pos s'))
        = out_prefix (rh_dst s) (unat (rh_pos s))
          @ take (unat (rh_pos s') - unat (rh_pos s)) (concat (map valid_bytes ys)) \<and>
      (rh_status s = ZX_OK \<and> rh_status s' = ZX_OK \<longrightarrow> rh_pos s' = len) \<and>
      chain_inv (rh_chain s')"
  using assms
proof (induction "False" "True" len s arbitrary: ys rule: ReadHelper_loop.induct)
  case (1 len s)
  show ?case
  proof (cases "ReadHelper_cond len s")
    case False
    then have e: "s' = s" using "1.prems"(7) by (simp add: ReadHelper_loop_stop)
    have "rh_status s = ZX_OK \<longrightarrow> rh_pos s = len"
    proof
      assume ok: "rh_status s = ZX_OK"
      show "rh_pos s = len"
      proof (cases "rh_buffers s = []")
        case True
        then have "total_len ys = 0" using "1.prems"(4) by simp
        then have "unat (rh_pos s) = unat len" using "1.prems"(5,6) by simp
        then show ?thesis by (simp add: word_unat_eq_iff)
      next
        case ne: False
        then have "\<not> rh_pos s < len"
          using False ok "1.prems"(2) by (simp add: ReadHelper_cond_def)
        then have "unat (rh_pos s) = unat len"
          using "1.prems"(5) by (simp add: word_less_nat_alt)
        then show ?thesis by (simp add: word_unat_eq_iff)
      qed
    qed
    then show ?thesis
      using e False "1.prems"(1,2,3,4,5) by (intro exI [of _ 0]) simp
  next
    case True
    have pl: "rh_pos s < len" and ok: "rh_status s = ZX_OK"
      using True by (simp_all add: ReadHelper_cond_def)
    have pL: "unat (rh_pos s) < unat len" using pl by (simp add: word_less_nat_alt)
    then have "ys \<noteq> []" using "1.prems"(6) by auto
    then obtain y ys' where ys: "ys = y # ys'" by (cases ys) auto
    have bs: "rh_buffers s = y # (ys' @ rest)" using "1.prems"(4) ys by simp
    have inv': "chain_inv \<lparr>buffers_m = y # (ys' @ rest), read_cursor_off_m = rh_read_off s,
                  size_m = rh_size s\<rparr>"
      using "1.prems"(1) by (simp add: rh_chain_def bs)
    define n where "n = min (unat (len_m y) - unat (rh_read_off s)) (unat len - unat (rh_pos s))"
    define st where "st = out_fault (rh_dst s) (unat (rh_pos s)) n"
    define pop where "pop = (True \<or> (st = ZX_OK \<and> unat (rh_read_off s) + n = unat (len_m y)))"
    define s1 where "s1 = ReadHelper_body False True len s"
    note f = ReadHelper_body_consume [OF inv' bs "1.prems"(2) pl n_def st_def pop_def s1_def]
    have n': "n = min (unat (len_m y)) (unat len - unat (rh_pos s))"
      by (simp add: n_def "1.prems"(3))
    have i1: "chain_inv (rh_chain s1)" "rh_iter s1 = 0"
      using ReadHelper_body_inv [OF "1.prems"(1,2) True, of True] by (simp_all add: s1_def)
    have b1: "rh_buffers s1 = ys' @ rest" using f(5) by (simp add: pop_def)
    have fl1: "rh_free_list s1 = y # rh_free_list s" using f(6) by (simp add: pop_def)
    have ro1: "rh_read_off s1 = 0" using f(7) by (simp add: pop_def unat_eq_0)
    have sz1: "unat (rh_size s1) = unat (rh_size s) - unat (len_m y)"
      using f(8) by (simp add: pop_def "1.prems"(3))
    have lp: "s' = ReadHelper_loop False True len s1"
      using "1.prems"(7) True by (simp add: ReadHelper_loop_step s1_def)
    have zs: "unat (rh_size s) = unat (len_m y) + total_len (ys' @ rest)"
      using inv' by (simp add: chain_inv_def "1.prems"(3))
    show ?thesis
    proof (cases "st = ZX_OK")
      case bad: False
      have "\<not> ReadHelper_cond len s1" using f(1) bad by (simp add: ReadHelper_cond_def)
      then have e: "s' = s1" using lp by (simp add: ReadHelper_loop_stop)
      have p1: "unat (rh_pos s1) = unat (rh_pos s)" using f(3) bad by simp
      have o1: "out_prefix (rh_dst s1) (unat (rh_pos s1)) = out_prefix (rh_dst s) (unat (rh_pos s))"
        using f(2) p1 by (simp add: out_prefix_copy_keep)
      have "rh_status s' \<noteq> ZX_OK" using e f(1) bad by simp
      then show ?thesis
        using e i1 b1 fl1 ro1 sz1 p1 o1 "1.prems"(5) ys
        by (intro exI [of _ 1]) simp
    next
      case good: True
      have p1: "unat (rh_pos s1) = unat (rh_pos s) + n" using f(3) good by simp
      have nle: "n \<le> unat (len_m y)" "n \<le> unat len - unat (rh_pos s)" by (simp_all add: n')
      have o1: "out_prefix (rh_dst s1) (unat (rh_pos s1))
                  = out_prefix (rh_dst s) (unat (rh_pos s)) @ take n (valid_bytes y)"
        using f(2) p1 good out_prefix_copy_ok [of "rh_dst s" "unat (rh_pos s)" n "data_m y" 0]
          valid_bytes_take [OF nle(1)]
        by (simp add: st_def "1.prems"(3))
      have q5: "unat (rh_pos s1) \<le> unat len" using p1 nle(2) pL by simp
      have q6: "unat len - unat (rh_pos s1) \<le> total_len ys'"
        using p1 "1.prems"(6) ys n' by (simp add: min_def split: if_splits)
      obtain k where K: "k \<le> length ys'"
        "rh_buffers s' = drop k ys' @ rest"
        "rh_free_list s' = rev (take k ys') @ rh_free_list s1"
        "unat (rh_size s') = unat (rh_size s1) - total_len (take k ys')"
        "rh_read_off s' = 0" "rh_iter s' = 0"
        "unat (rh_pos s1) \<le> unat (rh_pos s')" "unat (rh_pos s') \<le> unat len"
        "out_prefix (rh_dst s') (unat (rh_pos s'))
          = out_prefix (rh_dst s1) (unat (rh_pos s1))
            @ take (unat (rh_pos s') - unat (rh_pos s1)) (concat (map valid_bytes ys'))"
        "rh_status s1 = ZX_OK \<and> rh_status s' = ZX_OK \<longrightarrow> rh_pos s' = len"
        "chain_inv (rh_chain s')"
        using "1.hyps" [OF True i1(1) [unfolded s1_def] i1(2) [unfolded s1_def]
            ro1 [unfolded s1_def] b1 [unfolded s1_def] q5 [unfolded s1_def]
            q6 [unfolded s1_def] lp [unfolded s1_def], folded s1_def]
        by blast
      have tl: "total_len (take k ys') \<le> total_len (ys' @ rest)"
        using total_len_take_drop [of k ys'] by simp
      have g4: "unat (rh_size s') = unat (rh_size s) - total_len (take (Suc k) ys)"
        using K(4) sz1 zs tl by (simp add: ys)
      have g9: "out_prefix (rh_dst s') (unat (rh_pos s'))
        = out_prefix (rh_dst s) (unat (rh_pos s))
          @ take (unat (rh_pos s') - unat (rh_pos s)) (concat (map valid_bytes ys))"
      proof (cases "n = unat (len_m y)")
        case True
        then have "take n (valid_bytes y) = valid_bytes y" by (simp add: valid_bytes_def)
        moreover have "unat (rh_pos s') - unat (rh_pos s)
                         = length (valid_bytes y) + (unat (rh_pos s') - unat (rh_pos s1))"
          using K(7) p1 True by (simp add: valid_bytes_def)
        ultimately show ?thesis using K(9) o1 by (simp add: ys)
      next
        case False
        then have "n = unat len - unat (rh_pos s)" using n' by (simp add: min_def split: if_splits)
        then have "unat (rh_pos s1) = unat len" using p1 pL by simp
        then have e: "unat (rh_pos s') = unat (rh_pos s1)" using K(7,8) by simp
        have "n \<le> length (valid_bytes y)" using nle(1) by (simp add: valid_bytes_def)
        then show ?thesis using K(9) o1 e p1 by (simp add: ys)
      qed
      have g10: "rh_status s = ZX_OK \<and> rh_status s' = ZX_OK \<longrightarrow> rh_pos s' = len"
        using K(10) f(1) good by simp
      show ?thesis
        using K(1,2,3,5,6,7,8,11) g4 g9 g10 fl1 p1
        by (intro exI [of _ "Suc k"]) (simp add: ys)
    qed
  qed
qed

section \<open>Datagram framing: reads\<close>

lemma dropWhile_head:
  "case dropWhile P xs of [] \<Rightarrow> True | r # _ \<Rightarrow> \<not> P r"
  by (induction xs) auto

lemma ReadHelper_drain_bodies:
  assumes "chain_inv \<lparr>buffers_m = xs @ rest, read_cursor_off_m = 0, size_m = sz\<rparr>"
    and "\<forall>x \<in> set xs. is_body x"
    and "case rest of [] \<Rightarrow> True | r # _ \<Rightarrow> \<not> is_body r"
  shows "\<exists>sz'. ReadHelper_drain (xs @ rest) 0 sz fl = (rest, 0, sz', rev xs @ fl) \<and>
           unat sz' = unat sz - total_len xs"
  using assms
proof (induction xs arbitrary: sz fl)
  case Nil
  then show ?case by (cases rest) (auto simp: is_body_def)
next
  case (Cons x xs)
  have zs: "unat sz = unat (len_m x) + total_len (xs @ rest)"
    using Cons.prems(1) by (simp add: chain_inv_def)
  have u: "unat (sz - ucast (len_m x - 0)) = unat sz - unat (len_m x)"
    using zs by (simp add: unat_sub word_le_nat_alt unat_up)
  have "chain_inv \<lparr>buffers_m = xs @ rest, read_cursor_off_m = 0,
          size_m = sz - ucast (len_m x - 0)\<rparr>"
    using chain_inv_pop [of x "xs @ rest" 0 sz "sz - ucast (len_m x - 0)"] Cons.prems(1) u
    by simp
  then obtain sz' where
    d: "ReadHelper_drain (xs @ rest) 0 (sz - ucast (len_m x - 0)) (x # fl)
          = (rest, 0, sz', rev xs @ x # fl)"
    and s: "unat sz' = unat (sz - ucast (len_m x - 0)) - total_len xs"
    using Cons.IH [of "sz - ucast (len_m x - 0)" "x # fl"] Cons.prems(2,3) by auto
  have "pkt_len_m x = 0" using Cons.prems(2) by (simp add: is_body_def)
  then show ?case using d s u by simp
qed

lemma Read_datagram_unfold:
  assumes "size_m c \<noteq> 0" and "buffers_m c = b # bs"
  shows "Read c pmm dst len True =
     (let len' = (if len > ucast (pkt_len_m b) then ucast (pkt_len_m b) else len);
          s = ReadHelper_loop False True len'
                \<lparr>rh_pos = 0, rh_iter = 0, rh_read_off = read_cursor_off_m c,
                 rh_status = ZX_OK, rh_buffers = buffers_m c, rh_size = size_m c,
                 rh_free_list = [], rh_dst = dst\<rparr>;
          (buffers', read_off', size', free_list') =
             ReadHelper_drain (rh_buffers s) (rh_read_off s) (rh_size s) (rh_free_list s)
      in Some (\<lparr>buffers_m = buffers', read_cursor_off_m = read_off', size_m = size'\<rparr>,
               (if free_list' \<noteq> [] then FreeMBufs free_list' pmm else pmm),
               rh_dst s, rh_pos s, rh_status s))"
  using assms by (simp add: Read_def ReadHelper_def front_def Let_def)

lemma datagram_read:
  assumes inv: "chain_inv c" and dc: "datagram_cells (buffers_m c)"
    and ro: "read_cursor_off_m c = 0"
    and dg: "datagrams (buffers_m c) = d # ds" and len: "len \<noteq> 0"
  shows "\<exists>c' pmm' dst' actual st.
           Read c pmm dst len True = Some (c', pmm', dst', actual, st) \<and>
           out_prefix dst' (unat actual) = take (unat actual) d \<and>
           unat actual \<le> min (unat len) (length d) \<and>
           (st = ZX_OK \<longrightarrow> unat actual = min (unat len) (length d)) \<and>
           datagrams (buffers_m c') = ds \<and>
           unat (size_m c') = unat (size_m c) - length d \<and>
           length pmm' > length pmm \<and>
           chain_inv c' \<and> datagram_cells (buffers_m c') \<and> read_cursor_off_m c' = 0"
proof -
  obtain b bs where bb: "buffers_m c = b # bs" using dg by (cases "buffers_m c") auto
  define tw where "tw = takeWhile is_body bs"
  define rest where "rest = dropWhile is_body bs"
  define ys where "ys = b # tw"
  have split: "buffers_m c = ys @ rest" by (simp add: bb ys_def tw_def rest_def)
  have pk: "pkt_len_m b \<noteq> 0" "unat (pkt_len_m b) = total_len ys" "datagram_cells rest"
    using dc by (simp_all add: bb ys_def tw_def rest_def)
  have d: "d = concat (map valid_bytes ys)" and ds: "ds = datagrams rest"
    using dg by (simp_all add: bb ys_def tw_def rest_def)
  have dl: "length d = total_len ys" by (simp add: d concat_valid_length)
  have body_tw: "\<forall>x \<in> set tw. is_body x"
    unfolding tw_def by (blast dest: set_takeWhileD)
  have rest_hd: "case rest of [] \<Rightarrow> True | r # _ \<Rightarrow> \<not> is_body r"
    unfolding rest_def by (rule dropWhile_head)
  have nz: "size_m c \<noteq> 0" using chain_inv_empty_iff [OF inv] bb by simp
  define len' where "len' = (if len > ucast (pkt_len_m b) then ucast (pkt_len_m b) else len)"
  have ul: "unat len' = min (unat len) (length d)"
    by (simp add: len'_def word_less_nat_alt unat_up pk(2) dl min_def)
  have l0: "0 < unat len'"
  proof -
    have "0 < unat len" using len by (simp add: unat_gt_0)
    moreover have "0 < unat (pkt_len_m b)" using pk(1) by (simp add: unat_gt_0)
    ultimately show ?thesis using ul pk(2) dl by simp
  qed
  define s0 where "s0 = \<lparr>rh_pos = 0, rh_iter = 0, rh_read_off = read_cursor_off_m c,
                         rh_status = ZX_OK, rh_buffers = buffers_m c, rh_size = size_m c,
                         rh_free_list = [], rh_dst = dst\<rparr>"
  define s' where "s' = ReadHelper_loop False True len' s0"
  have c0: "rh_chain s0 = c" by (simp add: rh_chain_def s0_def)
  have cond0: "ReadHelper_cond len' s0"
    using l0 by (simp add: ReadHelper_cond_def s0_def bb word_less_nat_alt)
  have p6: "unat len' - unat (rh_pos s0) \<le> total_len ys" using ul dl by (simp add: s0_def)
  obtain k where K: "k \<le> length ys"
      "rh_buffers s' = drop k ys @ rest"
      "rh_free_list s' = rev (take k ys) @ rh_free_list s0"
      "0 < k"
      "unat (rh_size s') = unat (rh_size s0) - total_len (take k ys)"
      "rh_read_off s' = 0"
      "unat (rh_pos s') \<le> unat len'"
      "out_prefix (rh_dst s') (unat (rh_pos s'))
        = out_prefix (rh_dst s0) (unat (rh_pos s0))
          @ take (unat (rh_pos s') - unat (rh_pos s0)) (concat (map valid_bytes ys))"
      "rh_status s0 = ZX_OK \<and> rh_status s' = ZX_OK \<longrightarrow> rh_pos s' = len'"
      "chain_inv (rh_chain s')"
    using ReadHelper_loop_datagram [of s0 ys rest len' s'] inv c0 split ro cond0 p6
    by (auto simp: s0_def s'_def)
  have body_drop: "\<forall>x \<in> set (drop k ys). is_body x"
  proof -
    have "drop k ys = drop (k - 1) tw" using K(4) by (cases k) (simp_all add: ys_def)
    then show ?thesis using body_tw by (metis in_set_dropD)
  qed
  have inv': "chain_inv \<lparr>buffers_m = drop k ys @ rest, read_cursor_off_m = 0,
                size_m = rh_size s'\<rparr>"
    using K(10) K(2) K(6) by (simp add: rh_chain_def)
  obtain sz' where dr: "ReadHelper_drain (drop k ys @ rest) 0 (rh_size s')
        (rev (take k ys) @ rh_free_list s0) = (rest, 0, sz', rev (drop k ys) @ rev (take k ys) @ rh_free_list s0)"
    and sz: "unat sz' = unat (rh_size s') - total_len (drop k ys)"
    using ReadHelper_drain_bodies [OF inv' body_drop rest_hd] by blast
  have fl: "rev (drop k ys) @ rev (take k ys) @ rh_free_list s0 = rev ys"
    by (simp add: s0_def flip: rev_append)
  have ne: "rev ys \<noteq> []" by (simp add: ys_def)
  define c' where "c' = \<lparr>buffers_m = rest, read_cursor_off_m = 0, size_m = sz'\<rparr>"
  have rd: "Read c pmm dst len True
              = Some (c', FreeMBufs (rev ys) pmm, rh_dst s', rh_pos s', rh_status s')"
    unfolding Read_datagram_unfold [OF nz bb]
    unfolding Let_def len'_def [symmetric]
    unfolding s0_def [symmetric]
    unfolding s'_def [symmetric]
    using dr fl ne K(2,3,6) by (simp add: c'_def)
  have g1: "out_prefix (rh_dst s') (unat (rh_pos s')) = take (unat (rh_pos s')) d"
    using K(8) by (simp add: s0_def out_prefix_def d)
  have g2: "unat (rh_pos s') \<le> min (unat len) (length d)" using K(7) ul by simp
  have g3: "rh_status s' = ZX_OK \<longrightarrow> unat (rh_pos s') = min (unat len) (length d)"
    using K(9) ul by (auto simp: s0_def)
  have g5: "unat (size_m c') = unat (size_m c) - length d"
  proof -
    have "unat sz' = unat (size_m c) - total_len (take k ys) - total_len (drop k ys)"
      using sz K(5) by (simp add: s0_def)
    then show ?thesis using total_len_take_drop [of k ys] dl by (simp add: c'_def)
  qed
  have g6: "length (FreeMBufs (rev ys) pmm) > length pmm"
    by (simp add: FreeMBufs_length ys_def)
  have g7: "chain_inv c'"
    using Read_inv [OF inv, of pmm dst len True] rd by simp
  show ?thesis
    using rd g1 g2 g3 g5 g6 g7 pk(3) ds by (simp add: c'_def)
qed

section \<open>Datagram framing\<close>

text \<open>
  C4, as the code has it. Take a chain in datagram mode: it satisfies the invariants,
  its cells are framed as datagrams and its read cursor is 0. A successful
  \<open>WriteDatagram\<close> keeps it so and appends the bytes it was given as the newest datagram.
  When the chain holds the datagrams \<open>d # ds\<close>, oldest first, \<open>Read\<close> with \<open>datagram = true\<close>
  and \<open>len > 0\<close> returns; the user memory holds the first \<open>actual\<close> bytes of \<open>d\<close>, with
  \<open>actual = min(len, length d)\<close> when the status is \<open>ZX_OK\<close>; and whatever the status (a
  failed user copy included) the chain is left in datagram mode holding exactly \<open>ds\<close>:
  the whole of \<open>d\<close> is gone, and the allocator has pages back.
\<close>

theorem datagram_framing:
  assumes "chain_inv c" and "datagram_cells (buffers_m c)" and "read_cursor_off_m c = 0"
  shows "(\<forall>src n c1 pmm1 written.
            WriteDatagram src n c pmm = Some (c1, pmm1, written, ZX_OK) \<longrightarrow>
              chain_inv c1 \<and> datagram_cells (buffers_m c1) \<and> read_cursor_off_m c1 = 0 \<and>
              datagrams (buffers_m c1) = datagrams (buffers_m c) @ [in_prefix src (unat n)]) \<and>
         (\<forall>d ds dst len.
            datagrams (buffers_m c) = d # ds \<and> len \<noteq> 0 \<longrightarrow>
              (\<exists>c' pmm' dst' actual st.
                 Read c pmm dst len True = Some (c', pmm', dst', actual, st) \<and>
                 out_prefix dst' (unat actual) = take (unat actual) d \<and>
                 unat actual \<le> min (unat len) (length d) \<and>
                 (st = ZX_OK \<longrightarrow> unat actual = min (unat len) (length d)) \<and>
                 datagrams (buffers_m c') = ds \<and>
                 unat (size_m c') = unat (size_m c) - length d \<and>
                 length pmm' > length pmm \<and>
                 chain_inv c' \<and> datagram_cells (buffers_m c') \<and> read_cursor_off_m c' = 0))"
proof -
  have w: "chain_inv c1 \<and> datagram_cells (buffers_m c1) \<and> read_cursor_off_m c1 = 0 \<and>
           datagrams (buffers_m c1) = datagrams (buffers_m c) @ [in_prefix src (unat n)]"
    if "WriteDatagram src n c pmm = Some (c1, pmm1, written, ZX_OK)"
    for src n c1 pmm1 written
    using WriteDatagram_appends_datagram [OF assms(1,2) that] assms(3) by simp
  have r: "\<exists>c' pmm' dst' actual st.
                 Read c pmm dst len True = Some (c', pmm', dst', actual, st) \<and>
                 out_prefix dst' (unat actual) = take (unat actual) d \<and>
                 unat actual \<le> min (unat len) (length d) \<and>
                 (st = ZX_OK \<longrightarrow> unat actual = min (unat len) (length d)) \<and>
                 datagrams (buffers_m c') = ds \<and>
                 unat (size_m c') = unat (size_m c) - length d \<and>
                 length pmm' > length pmm \<and>
                 chain_inv c' \<and> datagram_cells (buffers_m c') \<and> read_cursor_off_m c' = 0"
    if "datagrams (buffers_m c) = d # ds \<and> len \<noteq> 0" for d ds dst len
    using datagram_read [OF assms, of d ds len pmm dst] that by blast
  show ?thesis using w r by blast
qed

text \<open>
  The claim as stated fails for \<open>len = 0\<close>: the read succeeds with \<open>(0, ZX_OK)\<close> and the
  chain still holds both datagrams.
\<close>

theorem datagram_framing_counterexample:
  "datagrams (buffers_m ex_dgram_chain) = [[65, 65, 65], [66, 66, 66, 66, 66]] \<and>
   (\<exists>c'. Read ex_dgram_chain [] ex_dst 0 True = Some (c', [], ex_dst, 0, ZX_OK) \<and>
         datagrams (buffers_m c') = [[65, 65, 65], [66, 66, 66, 66, 66]])"
  by (simp add: model_defs ex_defs is_body_def valid_bytes_def upt_rec)

lemma datagram_cells_ex: "datagram_cells (buffers_m ex_dgram_chain)"
  by (simp add: ex_defs is_body_def)

lemma datagrams_ex:
  "datagrams (buffers_m ex_dgram_chain) = [[65, 65, 65], [66, 66, 66, 66, 66]]"
  by (simp add: ex_defs is_body_def valid_bytes_def upt_rec)

theorem datagram_framing_witness:
  "\<exists>c' pmm' dst' c2 pmm2 dst2 c1 pmm1.
     chain_inv ex_dgram_chain \<and> datagram_cells (buffers_m ex_dgram_chain) \<and>
     read_cursor_off_m ex_dgram_chain = 0 \<and>
     datagrams (buffers_m ex_dgram_chain) = [[65, 65, 65], [66, 66, 66, 66, 66]] \<and>
     Read ex_dgram_chain [] ex_dst 2 True = Some (c', pmm', dst', 2, ZX_OK) \<and>
     out_prefix dst' 2 = [65, 65] \<and>
     datagrams (buffers_m c') = [[66, 66, 66, 66, 66]] \<and>
     Read ex_dgram_chain [] (ex_dst_fault 0) 2 True
       = Some (c2, pmm2, dst2, 0, ZX_ERR_INVALID_ARGS) \<and>
     datagrams (buffers_m c2) = [[66, 66, 66, 66, 66]] \<and>
     WriteDatagram (ex_src 67) 2 ex_dgram_chain [ex_page 1] = Some (c1, pmm1, 2, ZX_OK) \<and>
     datagrams (buffers_m c1) = [[65, 65, 65], [66, 66, 66, 66, 66], [67, 67]]"
proof -
  note T = datagram_framing [OF chain_inv_ex_dgram datagram_cells_ex, of "[]"]
  note W = datagram_framing [OF chain_inv_ex_dgram datagram_cells_ex, of "[ex_page 1]"]
  have ro: "read_cursor_off_m ex_dgram_chain = 0" by (simp add: ex_defs)
  obtain c' pmm' dst' where
    r1: "Read ex_dgram_chain [] ex_dst 2 True = Some (c', pmm', dst', 2, ZX_OK)"
    by (simp add: model_defs ex_defs)
  obtain c2 pmm2 dst2 where
    r2: "Read ex_dgram_chain [] (ex_dst_fault 0) 2 True
           = Some (c2, pmm2, dst2, 0, ZX_ERR_INVALID_ARGS)"
    by (simp add: model_defs ex_defs)
  have "\<exists>c1 pmm1. WriteDatagram (ex_src 67) 2 ex_dgram_chain [ex_page 1]
          = Some (c1, pmm1, 2, ZX_OK)"
    by (simp add: model_defs ex_defs)
  then obtain c1 pmm1 where
    w1: "WriteDatagram (ex_src 67) 2 ex_dgram_chain [ex_page 1] = Some (c1, pmm1, 2, ZX_OK)"
    by blast
  have a1: "out_prefix dst' 2 = [65, 65]" "datagrams (buffers_m c') = [[66, 66, 66, 66, 66]]"
    using T [OF ro, THEN conjunct2, rule_format, of "[65, 65, 65]" "[[66, 66, 66, 66, 66]]" 2 ex_dst]
      datagrams_ex r1
    by auto
  have a2: "datagrams (buffers_m c2) = [[66, 66, 66, 66, 66]]"
    using T [OF ro, THEN conjunct2, rule_format, of "[65, 65, 65]" "[[66, 66, 66, 66, 66]]" 2
        "ex_dst_fault 0"]
      datagrams_ex r2
    by auto
  have a3: "datagrams (buffers_m c1) = [[65, 65, 65], [66, 66, 66, 66, 66], [67, 67]]"
    using W [OF ro, THEN conjunct1, rule_format, of "ex_src 67" 2 c1 pmm1 2] w1 datagrams_ex
    by (simp add: in_prefix_def ex_src_def upt_rec)
  show ?thesis
    using chain_inv_ex_dgram datagram_cells_ex ro datagrams_ex r1 r2 w1 a1 a2 a3 by blast
qed

end
